theory Spec2Isabelle
  imports Complex_Main "HOL-Library.AList" "HOL-Library.Sublist" "HOL-Library.Multiset"
begin

section \<open>Data model (src/utils.py)\<close>

text \<open>
  Python floats are modelled as real numbers: rounding, infinities and NaN are outside
  the model. Python's unbounded integers are \<open>int\<close>. Strings are \<open>string\<close>.
  A Python \<open>dict\<close> is an association list in insertion order: assigning to a key that
  is present keeps its position (\<open>AList.update\<close>), a new key goes to the end, and
  \<open>map_of\<close> is the lookup.
\<close>

datatype retriever = Bm25 | Vector

record DocumentMetaData =
  title :: string
  url :: string
  content_type :: string
  last_modified :: string
  storage_size :: int

text \<open>Class \<open>Passage\<close>; the fields \<open>text\<close> and \<open>score\<close> carry the suffix \<open>_psg\<close>.\<close>

record Passage =
  chunk_id :: string
  text_psg :: string
  score_psg :: real
  retriever :: retriever

text \<open>Class \<open>SearchHit\<close>; the field \<open>id\<close> is \<open>id_hit\<close>.\<close>

record SearchHit =
  id_hit :: string
  bm25 :: "real option"
  cosine :: "real option"
  score :: real
  meta :: "DocumentMetaData option"
  passages :: "Passage list"

datatype error = ZeroDivisionError | ServiceError string

section \<open>The fusion engine: \<open>aggregate_search_hits\<close> (src/utils.py)\<close>

text \<open>\<open>SearchHit(id=doc_id, passages=[])\<close>: every other field takes its default.\<close>

definition new_hit :: "string \<Rightarrow> SearchHit" where
  "new_hit doc_id =
     \<lparr>id_hit = doc_id, bm25 = None, cosine = None, score = 0, meta = None, passages = []\<rparr>"

text \<open>\<open>d.setdefault(k, v)\<close>, for its effect on the dict.\<close>

definition setdefault :: "('k \<times> 'v) list \<Rightarrow> 'k \<Rightarrow> 'v \<Rightarrow> ('k \<times> 'v) list" where
  "setdefault d k v = (if map_of d k = None then AList.update k v d else d)"

text \<open>\<open>for i, h in enumerate(hs, start=i0): d.setdefault(h.id, i)\<close>\<close>

fun rank_loop :: "(string \<times> int) list \<Rightarrow> int \<Rightarrow> SearchHit list \<Rightarrow> (string \<times> int) list" where
  "rank_loop d i [] = d"
| "rank_loop d i (h # hs) = rank_loop (setdefault d (id_hit h) i) (i + 1) hs"

definition text_hits :: "SearchHit list \<Rightarrow> SearchHit list" where
  "text_hits hits_list = filter (\<lambda>h. bm25 h \<noteq> None) hits_list"

definition vector_hits :: "SearchHit list \<Rightarrow> SearchHit list" where
  "vector_hits hits_list = filter (\<lambda>h. cosine h \<noteq> None) hits_list"

definition text_rank :: "SearchHit list \<Rightarrow> (string \<times> int) list" where
  "text_rank hits_list = rank_loop [] 1 (text_hits hits_list)"

definition vector_rank :: "SearchHit list \<Rightarrow> (string \<times> int) list" where
  "vector_rank hits_list = rank_loop [] 1 (vector_hits hits_list)"

text \<open>
  \<open>x or float("-inf")\<close> on an optional float: \<open>None\<close> and \<open>0.0\<close> are both falsy,
  so both give minus infinity, written \<open>None\<close> here.
\<close>

definition or_neg_inf :: "real option \<Rightarrow> real option" where
  "or_neg_inf x = (case x of None \<Rightarrow> None | Some v \<Rightarrow> if v = 0 then None else Some v)"

text \<open>\<open>max(a, x)\<close> where \<open>a\<close> may be minus infinity (\<open>None\<close>).\<close>

definition max_neg_inf :: "real option \<Rightarrow> real \<Rightarrow> real" where
  "max_neg_inf a x = (case a of None \<Rightarrow> x | Some v \<Rightarrow> max v x)"

text \<open>The body of the merge loop, on the merged hit \<open>m\<close> of the document of \<open>h\<close>.\<close>

definition merge_hit :: "SearchHit \<Rightarrow> SearchHit \<Rightarrow> SearchHit" where
  "merge_hit m h =
     (let m1 = (case bm25 h of None \<Rightarrow> m
                | Some x \<Rightarrow> m\<lparr>bm25 := Some (max_neg_inf (or_neg_inf (bm25 m)) x)\<rparr>);
          m2 = (case cosine h of None \<Rightarrow> m1
                | Some x \<Rightarrow> m1\<lparr>cosine := Some (max_neg_inf (or_neg_inf (cosine m1)) x)\<rparr>)
      in if passages h \<noteq> [] then m2\<lparr>passages := passages m2 @ passages h\<rparr> else m2)"

text \<open>\<open>_ensure(doc_id)\<close>: the dict afterwards and the hit it returns.\<close>

definition ensure :: "(string \<times> SearchHit) list \<Rightarrow> string \<Rightarrow> (string \<times> SearchHit) list \<times> SearchHit" where
  "ensure merged doc_id =
     (case map_of merged doc_id of
        None \<Rightarrow> (AList.update doc_id (new_hit doc_id) merged, new_hit doc_id)
      | Some m \<Rightarrow> (merged, m))"

definition merge_step :: "(string \<times> SearchHit) list \<Rightarrow> SearchHit \<Rightarrow> (string \<times> SearchHit) list" where
  "merge_step merged h =
     (case ensure merged (id_hit h) of
        (merged1, m) \<Rightarrow> AList.update (id_hit h) (merge_hit m h) merged1)"

fun merge_loop :: "(string \<times> SearchHit) list \<Rightarrow> SearchHit list \<Rightarrow> (string \<times> SearchHit) list" where
  "merge_loop merged [] = merged"
| "merge_loop merged (h # hs) = merge_loop (merge_step merged h) hs"

text \<open>\<open>w * (1.0 / (rrf_k + r))\<close>: the division raises when \<open>rrf_k + r\<close> is zero.\<close>

definition rrf_term :: "real \<Rightarrow> int \<Rightarrow> int \<Rightarrow> error + real" where
  "rrf_term w rrf_k r =
     (if rrf_k + r = 0 then Inl ZeroDivisionError else Inr (w * (1 / real_of_int (rrf_k + r))))"

definition fused_score ::
  "real \<Rightarrow> real \<Rightarrow> int \<Rightarrow> (string \<times> int) list \<Rightarrow> (string \<times> int) list \<Rightarrow> string \<Rightarrow> error + real" where
  "fused_score w_text w_vector rrf_k trank vrank doc_id =
     (case (case map_of trank doc_id of
              None \<Rightarrow> Inr 0
            | Some r \<Rightarrow> (case rrf_term w_text rrf_k r of Inl e \<Rightarrow> Inl e | Inr x \<Rightarrow> Inr (0 + x))) of
        Inl e \<Rightarrow> Inl e
      | Inr s \<Rightarrow>
          (case map_of vrank doc_id of
             None \<Rightarrow> Inr s
           | Some r \<Rightarrow> (case rrf_term w_vector rrf_k r of Inl e \<Rightarrow> Inl e | Inr x \<Rightarrow> Inr (s + x))))"

text \<open>The loop that fills \<open>best_by_chunk\<close>.\<close>

definition chunk_step :: "(string \<times> Passage) list \<Rightarrow> Passage \<Rightarrow> (string \<times> Passage) list" where
  "chunk_step d p =
     (case map_of d (chunk_id p) of
        None \<Rightarrow> AList.update (chunk_id p) p d
      | Some old \<Rightarrow> if score_psg p > score_psg old then AList.update (chunk_id p) p d else d)"

fun best_by_chunk :: "(string \<times> Passage) list \<Rightarrow> Passage list \<Rightarrow> (string \<times> Passage) list" where
  "best_by_chunk d [] = d"
| "best_by_chunk d (p # ps) = best_by_chunk (chunk_step d p) ps"

text \<open>\<open>sorted(xs, key=f, reverse=True)\<close>: a stable sort, descending in the key.\<close>

definition sorted_desc :: "('a \<Rightarrow> real) \<Rightarrow> 'a list \<Rightarrow> 'a list" where
  "sorted_desc f xs = sort_key (\<lambda>x. - f x) xs"

text \<open>The slice \<open>xs[:n]\<close>; a negative \<open>n\<close> counts from the end.\<close>

definition slice_to :: "int \<Rightarrow> 'a list \<Rightarrow> 'a list" where
  "slice_to n xs =
     (if 0 \<le> n then take (nat n) xs else take (nat (int (length xs) + n)) xs)"

definition top_passages :: "int \<Rightarrow> Passage list \<Rightarrow> Passage list" where
  "top_passages max_passages_per_doc ps =
     slice_to max_passages_per_doc (sorted_desc score_psg (map snd (best_by_chunk [] ps)))"

text \<open>The body of the scoring loop for one item of \<open>merged.items()\<close>.\<close>

definition finish_doc ::
  "real \<Rightarrow> real \<Rightarrow> int \<Rightarrow> int \<Rightarrow> (string \<times> int) list \<Rightarrow> (string \<times> int) list \<Rightarrow>
   string \<times> SearchHit \<Rightarrow> error + (string \<times> SearchHit)" where
  "finish_doc w_text w_vector rrf_k max_passages_per_doc trank vrank item =
     (case fused_score w_text w_vector rrf_k trank vrank (fst item) of
        Inl e \<Rightarrow> Inl e
      | Inr s \<Rightarrow>
          Inr (fst item,
               (snd item)\<lparr>score := s,
                          passages := top_passages max_passages_per_doc (passages (snd item))\<rparr>))"

text \<open>The scoring loop: the first item whose score raises ends the call.\<close>

fun score_loop ::
  "(string \<times> SearchHit \<Rightarrow> error + (string \<times> SearchHit)) \<Rightarrow> (string \<times> SearchHit) list \<Rightarrow>
   error + (string \<times> SearchHit) list" where
  "score_loop f [] = Inr []"
| "score_loop f (item # items) =
     (case f item of
        Inl e \<Rightarrow> Inl e
      | Inr item' \<Rightarrow>
          (case score_loop f items of Inl e \<Rightarrow> Inl e | Inr items' \<Rightarrow> Inr (item' # items')))"

definition aggregate_search_hits ::
  "SearchHit list \<Rightarrow> real \<Rightarrow> real \<Rightarrow> int \<Rightarrow> int \<Rightarrow> error + SearchHit list" where
  "aggregate_search_hits hits_list w_text w_vector rrf_k max_passages_per_doc =
     (case score_loop
             (finish_doc w_text w_vector rrf_k max_passages_per_doc
                (text_rank hits_list) (vector_rank hits_list))
             (merge_loop [] hits_list) of
        Inl e \<Rightarrow> Inl e
      | Inr merged \<Rightarrow> Inr (sorted_desc score (map snd merged)))"

text \<open>The call with every keyword argument at its default.\<close>

definition aggregate_default :: "SearchHit list \<Rightarrow> error + SearchHit list" where
  "aggregate_default hits_list = aggregate_search_hits hits_list 1 1 60 3"

text \<open>The 0-based position of the first occurrence of \<open>x\<close> (the length when there is none).\<close>

definition first_pos :: "'a \<Rightarrow> 'a list \<Rightarrow> nat" where
  "first_pos x xs = length (takeWhile (\<lambda>y. y \<noteq> x) xs)"

section \<open>Auxiliary notions and example inputs\<close>

text \<open>An invariant of the \<open>merged\<close> dict: every hit is stored under its own id.\<close>

definition keyed :: "(string \<times> SearchHit) list \<Rightarrow> bool" where
  "keyed d = (\<forall>k m. map_of d k = Some m \<longrightarrow> id_hit m = k)"

text \<open>
  Hits of the shape the retrieval adapters build (src/main.py, \<open>text_search\<close> and
  \<open>vector_search\<close>): one chunk, one passage carrying the hit's raw score. They serve as
  concrete inputs.
\<close>

definition lexical_hit :: "string \<Rightarrow> string \<Rightarrow> real \<Rightarrow> SearchHit" where
  "lexical_hit doc chunk s =
     \<lparr>id_hit = doc, bm25 = Some s, cosine = None, score = 0, meta = None,
      passages = [\<lparr>chunk_id = chunk, text_psg = ''t'', score_psg = s, retriever = Bm25\<rparr>]\<rparr>"

definition vector_hit :: "string \<Rightarrow> string \<Rightarrow> real \<Rightarrow> SearchHit" where
  "vector_hit doc chunk s =
     \<lparr>id_hit = doc, bm25 = None, cosine = Some s, score = 0, meta = None,
      passages = [\<lparr>chunk_id = chunk, text_psg = ''t'', score_psg = s, retriever = Vector\<rparr>]\<rparr>"

definition ex_hits :: "SearchHit list" where
  "ex_hits = [lexical_hit ''a'' ''a1'' 3, lexical_hit ''a'' ''a2'' 2, lexical_hit ''b'' ''b1'' 1,
              vector_hit ''a'' ''a1'' 5, vector_hit ''c'' ''c1'' 4]"

text \<open>
  \<open>r\<close> is the 1-based position in \<open>xs\<close> of the first hit of document \<open>d\<close>.
\<close>

definition is_first_position :: "SearchHit list \<Rightarrow> string \<Rightarrow> int \<Rightarrow> bool" where
  "is_first_position xs d r =
     (1 \<le> r \<and> nat r \<le> length xs \<and> id_hit (xs ! (nat r - 1)) = d \<and>
      d \<notin> id_hit ` set (take (nat r - 1) xs))"

text \<open>
  The rank as claim C1 words it, counting distinct ids: the number of distinct ids among
  the hits up to and including the first hit of \<open>d\<close>.
\<close>

definition distinct_count_rank :: "string list \<Rightarrow> string \<Rightarrow> int option" where
  "distinct_count_rank ids d =
     (if d \<in> set ids then Some (int (length (remdups (take (Suc (first_pos d ids)) ids)))) else None)"

definition dup_hits :: "SearchHit list" where
  "dup_hits = [lexical_hit ''a'' ''a1'' 3, lexical_hit ''a'' ''a2'' 2, lexical_hit ''b'' ''b1'' 1]"

definition tie_hits :: "SearchHit list" where
  "tie_hits = [lexical_hit ''b'' ''b1'' 2, vector_hit ''a'' ''a1'' 7, lexical_hit ''c'' ''c1'' 1]"

text \<open>
  The passage that deduplication is to keep for chunk id \<open>c\<close>, in the words of the
  specification: among the passages of that chunk, one of highest score, and of those the
  first encountered.
\<close>

definition best_for_chunk :: "Passage list \<Rightarrow> string \<Rightarrow> Passage option" where
  "best_for_chunk ps c =
     List.find (\<lambda>q. chunk_id q = c \<and>
                     (\<forall>q' \<in> set ps. chunk_id q' = c \<longrightarrow> score_psg q' \<le> score_psg q)) ps"

text \<open>The concatenated passages of the input hits of document \<open>d\<close>, in input order.\<close>

definition doc_passages :: "SearchHit list \<Rightarrow> string \<Rightarrow> Passage list" where
  "doc_passages hits_list d = concat (map passages (filter (\<lambda>h. id_hit h = d) hits_list))"

definition dedup_hits :: "SearchHit list" where
  "dedup_hits = [lexical_hit ''a'' ''c1'' 1, vector_hit ''a'' ''c1'' 2, lexical_hit ''a'' ''c2'' 5,
                 lexical_hit ''a'' ''c3'' 4, vector_hit ''a'' ''c4'' 3]"

definition same_chunk_hits :: "SearchHit list" where
  "same_chunk_hits = [lexical_hit ''a'' ''c1'' 1, vector_hit ''a'' ''c1'' 2]"

definition zero_cosine_hits :: "SearchHit list" where
  "zero_cosine_hits = [vector_hit ''a'' ''a1'' 0, vector_hit ''a'' ''a2'' (- 1)]"

definition zero_bm25_hits :: "SearchHit list" where
  "zero_bm25_hits = [lexical_hit ''a'' ''a1'' 0, lexical_hit ''a'' ''a2'' (- 1)]"

section \<open>The snippet extractor: \<open>make_snippet\<close> (src/main.py)\<close>

text \<open>
  A Python \<open>str\<close> is a sequence of characters (Unicode code points): \<open>len\<close>, offsets and
  slices count characters. It is modelled as a list over a type \<open>'c\<close> of characters.
  \<open>make_snippet\<close> calls two methods of \<open>str\<close> whose results are fixed by the Unicode
  character database of the interpreter, not by the repository: \<open>str.lower\<close> and
  \<open>str.strip\<close>. They are a parameter of the model, together with the one string literal
  of the function, \<open>"..."\<close>, which has to be given in the character type. Nothing is
  assumed of the two methods; in particular \<open>lower\<close> may change the length of a string,
  as \<open>str.lower\<close> does on U+0130, whose lower case is the two characters U+0069 U+0307.
\<close>

record 'c str_type =
  lower :: "'c list \<Rightarrow> 'c list"
  strip :: "'c list \<Rightarrow> 'c list"
  ellipsis :: "'c list"

text \<open>\<open>t.find(q)\<close>: the lowest offset at which \<open>q\<close> starts in \<open>t\<close>, or \<open>-1\<close>.\<close>

fun str_find :: "'a list \<Rightarrow> 'a list \<Rightarrow> int" where
  "str_find [] q = (if q = [] then 0 else - 1)"
| "str_find (c # cs) q =
     (if prefix q (c # cs) then 0
      else (let r = str_find cs q in if r = - 1 then - 1 else r + 1))"

text \<open>
  The slice \<open>xs[i:j]\<close>: a negative index counts from the end, and both are clamped to the
  list.
\<close>

definition slice :: "int \<Rightarrow> int \<Rightarrow> 'a list \<Rightarrow> 'a list" where
  "slice i j xs =
     (let n = int (length xs);
          norm = (\<lambda>k. if k < 0 then max 0 (n + k) else min n k)
      in drop (nat (norm i)) (take (nat (norm j)) xs))"

text \<open>
  \<open>make_snippet(text, query, window)\<close>. The arguments are strings, so \<open>text or ""\<close> is
  \<open>text\<close> and \<open>query or ""\<close> is \<open>query\<close>; \<open>window // 2\<close> is \<open>div\<close>, which rounds down as
  Python does. The offset \<open>idx\<close> is found in \<open>t.lower()\<close> and then used to cut \<open>t\<close>.
\<close>

definition make_snippet :: "'c str_type \<Rightarrow> 'c list \<Rightarrow> 'c list \<Rightarrow> int \<Rightarrow> 'c list" where
  "make_snippet U txt query window =
     (let t = txt; q = strip U query in
      if t = [] then []
      else if q = [] then slice_to window t @ (if int (length t) > window then ellipsis U else [])
      else
        let idx = str_find (lower U t) (lower U q) in
        if idx = - 1 then slice_to window t @ (if int (length t) > window then ellipsis U else [])
        else
          let start = max 0 (idx - window div 2);
              stop = min (int (length t)) (idx + window div 2);
              pre = (if start > 0 then ellipsis U else []);
              suf = (if stop < int (length t) then ellipsis U else [])
          in pre @ slice start stop t @ suf)"

text \<open>
  Strings of 8-bit characters (Latin-1 text), as the orchestrator model has them. On these
  \<open>str.lower\<close> works character by character: it maps \<open>A\<close>..\<open>Z\<close> and the capital letters
  U+00C0..U+00DE (all but the multiplication sign U+00D7) to the character 32 places
  further and leaves every other character alone. \<open>str.strip\<close> removes, at both ends, the
  characters for which \<open>str.isspace\<close> holds: tab, line feed, vertical tab, form feed,
  carriage return, the four separators U+001C..U+001F, space, U+0085 and U+00A0.
\<close>

definition lower_char :: "char \<Rightarrow> char" where
  "lower_char c =
     (let n = (of_char c :: nat) in
      if (0x41 \<le> n \<and> n \<le> 0x5A) \<or> (0xC0 \<le> n \<and> n \<le> 0xDE \<and> n \<noteq> 0xD7)
      then char_of (n + 0x20) else c)"

definition is_space :: "char \<Rightarrow> bool" where
  "is_space c = (c \<in> set [CHR 0x09, CHR 0x0A, CHR 0x0B, CHR 0x0C, CHR 0x0D,
                            CHR 0x1C, CHR 0x1D, CHR 0x1E, CHR 0x1F, CHR 0x20,
                            CHR 0x85, CHR 0xA0])"

definition strip_with :: "('c \<Rightarrow> bool) \<Rightarrow> 'c list \<Rightarrow> 'c list" where
  "strip_with sp s = rev (dropWhile sp (rev (dropWhile sp s)))"

definition latin1 :: "char str_type" where
  "latin1 = \<lparr>lower = map lower_char, strip = strip_with is_space, ellipsis = ''...''\<rparr>"

text \<open>
  A larger alphabet, for text on which lower-casing changes the length: the Latin-1
  characters, U+0130 (LATIN CAPITAL LETTER I WITH DOT ABOVE) and U+0307 (COMBINING DOT
  ABOVE). \<open>str.lower\<close> maps U+0130 to \<open>i\<close> followed by U+0307 and leaves U+0307 alone;
  neither of the two is whitespace.
\<close>

datatype uchar = Latin1 char | I_dot_above | Combining_dot_above

fun lower_uchar :: "uchar \<Rightarrow> uchar list" where
  "lower_uchar (Latin1 c) = [Latin1 (lower_char c)]"
| "lower_uchar I_dot_above = [Latin1 CHR ''i'', Combining_dot_above]"
| "lower_uchar Combining_dot_above = [Combining_dot_above]"

fun is_uspace :: "uchar \<Rightarrow> bool" where
  "is_uspace (Latin1 c) = is_space c"
| "is_uspace I_dot_above = False"
| "is_uspace Combining_dot_above = False"

definition dotted :: "uchar str_type" where
  "dotted = \<lparr>lower = (\<lambda>s. concat (map lower_uchar s)), strip = strip_with is_uspace,
             ellipsis = map Latin1 ''...''\<rparr>"

text \<open>\<open>q\<close> occurs in \<open>t\<close> at offset \<open>j\<close>.\<close>

definition occurs_at :: "'a list \<Rightarrow> 'a list \<Rightarrow> nat \<Rightarrow> bool" where
  "occurs_at t q j = prefix q (drop j t)"

text \<open>
  The snippet the specification describes for a match at offset \<open>idx\<close> of the text: the
  text from \<open>max(0, idx - window/2)\<close> to \<open>min(len(text), idx + window/2)\<close>, with the
  ellipsis marker in front iff that start is above 0 and behind iff that end is below the
  length of the text.
\<close>

definition window_at :: "'c list \<Rightarrow> 'c list \<Rightarrow> int \<Rightarrow> int \<Rightarrow> 'c list" where
  "window_at marker txt idx window =
     (let start = max 0 (idx - window div 2);
          stop = min (int (length txt)) (idx + window div 2)
      in (if start > 0 then marker else []) @ slice start stop txt @
         (if stop < int (length txt) then marker else []))"

text \<open>
  The text \<open>U+0130, space, needle\<close> (8 characters) and the query \<open>needle\<close>, which occurs
  in it at offset 2.
\<close>

definition dotted_text :: "uchar list" where
  "dotted_text = I_dot_above # map Latin1 '' needle''"

definition needle :: "uchar list" where
  "needle = map Latin1 ''needle''"

section \<open>The orchestrator: \<open>search\<close> and the retrieval adapters (src/main.py)\<close>

text \<open>
  The search clients, the embedding client and the document client are outside the
  repository. They are a parameter of the model: a record of functions, each giving the
  error the call raises or the value it returns. What one call of \<open>search\<close> does to them
  is kept as the list of calls made, in order, beside its result.
\<close>

text \<open>One result of the chunk index: the selected fields and \<open>@search.score\<close>.\<close>


record item =
  item_id :: string
  document_id :: string
  item_text :: "string option"
  search_score :: real

datatype call =
  LexicalSearch string int
| Embed string
| VectorSearch "real list" int
| GetDocument string

text \<open>
  \<open>lexical_search\<close> is \<open>chunks_search_client.search(search_text=query, top=top_k, ...)\<close> read
  to its end, \<open>embed\<close> is \<open>embedder.embeddings.create\<close> followed by \<open>data[0].embedding\<close>,
  \<open>vector_query\<close> is the search with the vector query, and \<open>get_document\<close> is
  \<open>documents_search_client.get_document\<close> followed by the construction of the
  \<open>DocumentMetaData\<close>.
\<close>

record services =
  lexical_search :: "string \<Rightarrow> int \<Rightarrow> error + item list"
  embed :: "string \<Rightarrow> error + real list"
  vector_query :: "real list \<Rightarrow> int \<Rightarrow> error + item list"
  get_document :: "string \<Rightarrow> error + DocumentMetaData"

type_synonym 'a io = "call list \<times> (error + 'a)"

definition call_service :: "call \<Rightarrow> error + 'a \<Rightarrow> 'a io" where
  "call_service c r = ([c], r)"

definition return_io :: "'a \<Rightarrow> 'a io" where
  "return_io x = ([], Inr x)"

text \<open>Sequencing: an error ends the request, the calls made so far are kept.\<close>

definition bind_io :: "'a io \<Rightarrow> ('a \<Rightarrow> 'b io) \<Rightarrow> 'b io" where
  "bind_io m f =
     (case m of
        (tr, Inl e) \<Rightarrow> (tr, Inl e)
      | (tr, Inr x) \<Rightarrow> (case f x of (tr', r) \<Rightarrow> (tr @ tr', r)))"

definition TOKEN_LIMIT :: nat where
  "TOKEN_LIMIT = 2048"

text \<open>\<open>_recall_k\<close>\<close>

definition recall_k :: "int \<Rightarrow> int \<Rightarrow> int" where
  "recall_k page page_size = max 50 (page * page_size * 5)"

text \<open>\<open>item.get("text", "") or ""\<close>\<close>

definition item_text_or_empty :: "item \<Rightarrow> string" where
  "item_text_or_empty it = (case item_text it of None \<Rightarrow> [] | Some t \<Rightarrow> t)"

text \<open>
  The hit built for one item by \<open>text_search\<close> and by \<open>vector_search\<close>. The strings of
  this model are lists of 8-bit characters, so the snippet is made with \<open>latin1\<close>.
\<close>

definition text_hit_of :: "string \<Rightarrow> item \<Rightarrow> SearchHit" where
  "text_hit_of qry it =
     \<lparr>id_hit = document_id it, bm25 = Some (search_score it), cosine = None, score = 0,
      meta = None,
      passages = [\<lparr>chunk_id = item_id it, text_psg = make_snippet latin1 (item_text_or_empty it) qry 400,
                   score_psg = search_score it, retriever = Bm25\<rparr>]\<rparr>"

definition vector_hit_of :: "string \<Rightarrow> item \<Rightarrow> SearchHit" where
  "vector_hit_of qry it =
     \<lparr>id_hit = document_id it, bm25 = None, cosine = Some (search_score it), score = 0,
      meta = None,
      passages = [\<lparr>chunk_id = item_id it, text_psg = make_snippet latin1 (item_text_or_empty it) qry 400,
                   score_psg = search_score it, retriever = Vector\<rparr>]\<rparr>"

definition text_search :: "services \<Rightarrow> string \<Rightarrow> int \<Rightarrow> SearchHit list io" where
  "text_search svc qry top_k =
     bind_io (call_service (LexicalSearch qry top_k) (lexical_search svc qry top_k))
       (\<lambda>items. return_io (map (text_hit_of qry) items))"

text \<open>
  \<open>vector_search\<close> cuts the query to \<open>TOKEN_LIMIT\<close> characters first; the snippets are
  made with the cut query, as the source rebinds \<open>query\<close>.
\<close>

definition vector_search :: "services \<Rightarrow> string \<Rightarrow> int \<Rightarrow> SearchHit list io" where
  "vector_search svc qry top_k =
     (let qry1 = (if length qry \<le> TOKEN_LIMIT then qry else take TOKEN_LIMIT qry) in
      bind_io (call_service (Embed qry1) (embed svc qry1))
        (\<lambda>embedding.
           bind_io (call_service (VectorSearch embedding top_k) (vector_query svc embedding top_k))
             (\<lambda>items. return_io (map (vector_hit_of qry1) items))))"

text \<open>The loop that attaches the metadata to the documents of the page.\<close>

fun enrich :: "services \<Rightarrow> SearchHit list \<Rightarrow> SearchHit list io" where
  "enrich svc [] = return_io []"
| "enrich svc (doc # docs) =
     bind_io (call_service (GetDocument (id_hit doc)) (get_document svc (id_hit doc)))
       (\<lambda>m. bind_io (enrich svc docs) (\<lambda>docs'. return_io (doc\<lparr>meta := Some m\<rparr> # docs')))"

text \<open>The dict that \<open>search\<close> returns.\<close>

record response =
  resp_query :: string
  resp_page :: int
  resp_page_size :: int
  total_results :: int
  total_pages :: int
  results :: "SearchHit list"

definition search :: "services \<Rightarrow> string \<Rightarrow> int \<Rightarrow> int \<Rightarrow> response io" where
  "search svc qry page page_size =
     (let page1 = (if page < 1 then 1 else page);
          page_size1 = (if page_size < 1 then 10 else page_size);
          k = recall_k page1 page_size1
      in bind_io (text_search svc qry k) (\<lambda>text_search_hits.
         bind_io (vector_search svc qry k) (\<lambda>vector_search_hits.
         bind_io ([], aggregate_default (text_search_hits @ vector_search_hits)) (\<lambda>documents.
           let n = int (length documents);
               pages = (n + page_size1 - 1) div page_size1;
               start = (page1 - 1) * page_size1;
               stop = start + page_size1;
               paginated = slice start stop documents
           in bind_io (enrich svc paginated) (\<lambda>enriched.
                return_io \<lparr>resp_query = qry, resp_page = page1, resp_page_size = page_size1,
                           total_results = n, total_pages = pages, results = enriched\<rparr>)))))"

text \<open>
  The recall budget a request uses, and the text \<open>vector_search\<close> sends to the embedder.
\<close>

definition search_k :: "int \<Rightarrow> int \<Rightarrow> int" where
  "search_k page page_size =
     recall_k (if page < 1 then 1 else page) (if page_size < 1 then 10 else page_size)"

definition embed_input :: "string \<Rightarrow> string" where
  "embed_input qry = (if length qry \<le> TOKEN_LIMIT then qry else take TOKEN_LIMIT qry)"

text \<open>Example collaborators: all working, the lexical search down, the vector search down.\<close>

definition doc_meta :: "string \<Rightarrow> DocumentMetaData" where
  "doc_meta d = \<lparr>title = d, url = ''u'', content_type = ''text/plain'',
                 last_modified = ''2024-01-01T00:00:00'', storage_size = 1\<rparr>"

definition svc_ok :: services where
  "svc_ok = \<lparr>lexical_search = (\<lambda>q k. Inr [\<lparr>item_id = ''c1'', document_id = ''a'',
                                            item_text = Some ''some text'', search_score = 2\<rparr>]),
             embed = (\<lambda>q. Inr [1, 0]),
             vector_query = (\<lambda>v k. Inr [\<lparr>item_id = ''c2'', document_id = ''b'',
                                          item_text = Some ''other text'', search_score = 1\<rparr>]),
             get_document = (\<lambda>d. Inr (doc_meta d))\<rparr>"

definition svc_lexical_down :: services where
  "svc_lexical_down = svc_ok\<lparr>lexical_search := (\<lambda>q k. Inl (ServiceError ''lexical''))\<rparr>"

definition svc_vector_down :: services where
  "svc_vector_down = svc_ok\<lparr>vector_query := (\<lambda>v k. Inl (ServiceError ''vector''))\<rparr>"

text \<open>
  The page of a request: \<open>documents[start:end]\<close> for the page and page size as \<open>search\<close>
  normalises them.
\<close>

definition page_of :: "int \<Rightarrow> int \<Rightarrow> 'a list \<Rightarrow> 'a list" where
  "page_of page page_size documents =
     (let page1 = (if page < 1 then 1 else page);
          page_size1 = (if page_size < 1 then 10 else page_size);
          start = (page1 - 1) * page_size1;
          stop = start + page_size1
      in slice start stop documents)"

text \<open>The error a call to a collaborator raises, if it raises one.\<close>

fun call_error :: "services \<Rightarrow> call \<Rightarrow> error option" where
  "call_error svc (LexicalSearch q k) =
     (case lexical_search svc q k of Inl e \<Rightarrow> Some e | Inr xs \<Rightarrow> None)"
| "call_error svc (Embed q) = (case embed svc q of Inl e \<Rightarrow> Some e | Inr v \<Rightarrow> None)"
| "call_error svc (VectorSearch v k) =
     (case vector_query svc v k of Inl e \<Rightarrow> Some e | Inr ys \<Rightarrow> None)"
| "call_error svc (GetDocument d) =
     (case get_document svc d of Inl e \<Rightarrow> Some e | Inr m \<Rightarrow> None)"

text \<open>
  Example collaborators whose document lookup works for document \<open>a\<close> only.
\<close>

definition svc_offpage_down :: services where
  "svc_offpage_down =
     svc_ok\<lparr>get_document :=
               (\<lambda>d. if d = ''a'' then Inr (doc_meta d) else Inl (ServiceError ''metadata''))\<rparr>"

section \<open>Objects and mutation: \<open>aggregate_search_hits\<close> on a heap (src/utils.py)\<close>

text \<open>
  To speak of mutation the objects need an identity. A heap holds the \<open>SearchHit\<close>
  objects and the list objects that their \<open>passages\<close> attributes point to, each at an
  address, its index in the store. A \<open>SearchHit\<close> object holds the address of its
  passages list, so two hits may share one list; a list of hits is a list of addresses,
  in which one object may occur more than once. \<open>Passage\<close> objects are values: the
  function never assigns to one.
\<close>

record hit_obj =
  o_id :: string
  o_bm25 :: "real option"
  o_cosine :: "real option"
  o_score :: real
  o_meta :: "DocumentMetaData option"
  o_passages :: nat

record heap =
  objs :: "hit_obj list"
  lsts :: "Passage list list"

text \<open>The value of the hit at address \<open>r\<close>, as the pure model has it.\<close>

definition deref :: "heap \<Rightarrow> nat \<Rightarrow> SearchHit" where
  "deref H r =
     \<lparr>id_hit = o_id (objs H ! r), bm25 = o_bm25 (objs H ! r), cosine = o_cosine (objs H ! r),
      score = o_score (objs H ! r), meta = o_meta (objs H ! r),
      passages = lsts H ! o_passages (objs H ! r)\<rparr>"

text \<open>The addresses \<open>rs\<close> point to objects of the heap whose lists are in the heap.\<close>

definition valid_refs :: "heap \<Rightarrow> nat list \<Rightarrow> bool" where
  "valid_refs H rs =
     list_all (\<lambda>r. r < length (objs H) \<and> o_passages (objs H ! r) < length (lsts H)) rs"

text \<open>
  Construction puts a new list or a new object at the next free address. Assignment to
  an attribute replaces the object at an address; \<open>list.extend\<close> replaces the list at
  an address. Python raises where the address is not in the heap; the functions are
  applied to addresses of the heap only (see \<open>valid_refs\<close>).
\<close>

definition alloc_list :: "heap \<Rightarrow> Passage list \<Rightarrow> heap \<times> nat" where
  "alloc_list H ps = (H\<lparr>lsts := lsts H @ [ps]\<rparr>, length (lsts H))"

definition alloc_obj :: "heap \<Rightarrow> hit_obj \<Rightarrow> heap \<times> nat" where
  "alloc_obj H ob = (H\<lparr>objs := objs H @ [ob]\<rparr>, length (objs H))"

definition update_obj :: "heap \<Rightarrow> nat \<Rightarrow> (hit_obj \<Rightarrow> hit_obj) \<Rightarrow> heap" where
  "update_obj H r f = H\<lparr>objs := (objs H)[r := f (objs H ! r)]\<rparr>"

definition extend :: "heap \<Rightarrow> nat \<Rightarrow> Passage list \<Rightarrow> heap" where
  "extend H l ps = H\<lparr>lsts := (lsts H)[l := lsts H ! l @ ps]\<rparr>"

text \<open>
  \<open>_ensure(doc_id)\<close>: \<open>merged\<close> maps a document id to the address of its merged hit;
  \<open>SearchHit(id=doc_id, passages=[])\<close> builds a new list and a new object.
\<close>

definition ensure_heap ::
  "heap \<Rightarrow> (string \<times> nat) list \<Rightarrow> string \<Rightarrow> heap \<times> (string \<times> nat) list \<times> nat" where
  "ensure_heap H merged doc_id =
     (case map_of merged doc_id of
        Some m \<Rightarrow> (H, merged, m)
      | None \<Rightarrow>
          (case alloc_list H [] of
             (H1, l) \<Rightarrow>
               (case alloc_obj H1 \<lparr>o_id = doc_id, o_bm25 = None, o_cosine = None, o_score = 0,
                                    o_meta = None, o_passages = l\<rparr> of
                  (H2, m) \<Rightarrow> (H2, AList.update doc_id m merged, m))))"

text \<open>
  The three statements of the merge loop's body, on the merged hit at \<open>m\<close> and the input
  hit at \<open>h\<close>: \<open>m.bm25 = max(m.bm25 or float("-inf"), h.bm25)\<close>, the same for
  \<open>cosine\<close>, and \<open>m.passages.extend(h.passages)\<close>, each under its condition and each
  reading the heap as the statements before it left it.
\<close>

definition set_best_bm25 :: "heap \<Rightarrow> nat \<Rightarrow> nat \<Rightarrow> heap" where
  "set_best_bm25 H m h =
     (case o_bm25 (objs H ! h) of
        None \<Rightarrow> H
      | Some x \<Rightarrow>
          update_obj H m (\<lambda>ob. ob\<lparr>o_bm25 := Some (max_neg_inf (or_neg_inf (o_bm25 ob)) x)\<rparr>))"

definition set_best_cosine :: "heap \<Rightarrow> nat \<Rightarrow> nat \<Rightarrow> heap" where
  "set_best_cosine H m h =
     (case o_cosine (objs H ! h) of
        None \<Rightarrow> H
      | Some x \<Rightarrow>
          update_obj H m (\<lambda>ob. ob\<lparr>o_cosine := Some (max_neg_inf (or_neg_inf (o_cosine ob)) x)\<rparr>))"

definition extend_passages :: "heap \<Rightarrow> nat \<Rightarrow> nat \<Rightarrow> heap" where
  "extend_passages H m h =
     (if lsts H ! o_passages (objs H ! h) \<noteq> []
      then extend H (o_passages (objs H ! m)) (lsts H ! o_passages (objs H ! h))
      else H)"

definition merge_hit_heap :: "heap \<Rightarrow> nat \<Rightarrow> nat \<Rightarrow> heap" where
  "merge_hit_heap H m h = extend_passages (set_best_cosine (set_best_bm25 H m h) m h) m h"

definition merge_step_heap ::
  "heap \<times> (string \<times> nat) list \<Rightarrow> nat \<Rightarrow> heap \<times> (string \<times> nat) list" where
  "merge_step_heap st h =
     (case st of (H, merged) \<Rightarrow>
      (case ensure_heap H merged (o_id (objs H ! h)) of
         (H1, merged1, m) \<Rightarrow> (merge_hit_heap H1 m h, merged1)))"

fun merge_loop_heap ::
  "heap \<times> (string \<times> nat) list \<Rightarrow> nat list \<Rightarrow> heap \<times> (string \<times> nat) list" where
  "merge_loop_heap st [] = st"
| "merge_loop_heap st (h # hs) = merge_loop_heap (merge_step_heap st h) hs"

text \<open>
  The body of the scoring loop: \<open>m.score = s\<close>, then \<open>m.passages\<close> is bound to the list
  that \<open>sorted(...)[:max_passages_per_doc]\<close> builds, a new list object.
\<close>

definition finish_doc_heap ::
  "real \<Rightarrow> real \<Rightarrow> int \<Rightarrow> int \<Rightarrow> (string \<times> int) list \<Rightarrow> (string \<times> int) list \<Rightarrow>
   heap \<Rightarrow> string \<times> nat \<Rightarrow> heap \<times> (error + unit)" where
  "finish_doc_heap w_text w_vector rrf_k max_passages_per_doc trank vrank H item =
     (case fused_score w_text w_vector rrf_k trank vrank (fst item) of
        Inl e \<Rightarrow> (H, Inl e)
      | Inr s \<Rightarrow>
          (let H1 = update_obj H (snd item) (\<lambda>ob. ob\<lparr>o_score := s\<rparr>) in
           case alloc_list H1
                  (top_passages max_passages_per_doc (lsts H1 ! o_passages (objs H1 ! snd item))) of
             (H2, l) \<Rightarrow> (update_obj H2 (snd item) (\<lambda>ob. ob\<lparr>o_passages := l\<rparr>), Inr ())))"

fun score_loop_heap ::
  "(heap \<Rightarrow> string \<times> nat \<Rightarrow> heap \<times> (error + unit)) \<Rightarrow> heap \<Rightarrow> (string \<times> nat) list \<Rightarrow>
   heap \<times> (error + unit)" where
  "score_loop_heap f H [] = (H, Inr ())"
| "score_loop_heap f H (item # items) =
     (case f H item of
        (H1, Inl e) \<Rightarrow> (H1, Inl e)
      | (H1, Inr u) \<Rightarrow> score_loop_heap f H1 items)"

text \<open>
  \<open>aggregate_search_hits\<close> on the heap: the heap it leaves, and the error it raises or the
  addresses of the hits it returns. The rank maps are computed first, from the hits as
  they are when the call starts.
\<close>

definition aggregate_heap ::
  "heap \<Rightarrow> nat list \<Rightarrow> real \<Rightarrow> real \<Rightarrow> int \<Rightarrow> int \<Rightarrow> heap \<times> (error + nat list)" where
  "aggregate_heap H hits_list w_text w_vector rrf_k max_passages_per_doc =
     (let trank = text_rank (map (deref H) hits_list);
          vrank = vector_rank (map (deref H) hits_list)
      in case merge_loop_heap (H, []) hits_list of
           (H1, merged) \<Rightarrow>
             (case score_loop_heap
                     (finish_doc_heap w_text w_vector rrf_k max_passages_per_doc trank vrank)
                     H1 merged of
                (H2, Inl e) \<Rightarrow> (H2, Inl e)
              | (H2, Inr u) \<Rightarrow>
                  (H2, Inr (sorted_desc (\<lambda>m. o_score (objs H2 ! m)) (map snd merged)))))"

text \<open>
  Example heaps: the hits \<open>hs\<close> stored one object and one list each, \<open>ex_hits\<close> stored
  so, and a heap in which two hits of document \<open>a\<close> share one passages list.
\<close>

definition store :: "SearchHit list \<Rightarrow> heap" where
  "store hs =
     \<lparr>objs = map (\<lambda>(i, h). \<lparr>o_id = id_hit h, o_bm25 = bm25 h, o_cosine = cosine h,
                              o_score = score h, o_meta = meta h, o_passages = i\<rparr>)
                  (enumerate 0 hs),
      lsts = map passages hs\<rparr>"

definition ex_heap :: heap where
  "ex_heap = store ex_hits"

definition shared_heap :: heap where
  "shared_heap =
     \<lparr>objs = [\<lparr>o_id = ''a'', o_bm25 = Some 3, o_cosine = None, o_score = 0, o_meta = None,
                o_passages = 0\<rparr>,
               \<lparr>o_id = ''a'', o_bm25 = None, o_cosine = Some 5, o_score = 0, o_meta = None,
                o_passages = 0\<rparr>],
      lsts = [[\<lparr>chunk_id = ''a1'', text_psg = ''t'', score_psg = 3, retriever = Bm25\<rparr>]]\<rparr>"

text \<open>
  Notions for the proofs. An address is fresh when the object and its list were built
  after the heap \<open>H0\<close> and its \<open>meta\<close> is absent. The invariant of the run from \<open>H0\<close>:
  the objects and lists of \<open>H0\<close> are all where they were and as they were, and the
  addresses \<open>rs\<close> are fresh. \<open>sep\<close> adds that they are distinct objects with distinct
  lists. \<open>abs_merged\<close> reads the \<open>merged\<close> dict of addresses as the dict of hits of the
  pure model, and \<open>finish_obj\<close> is the heap after the body of the scoring loop.
\<close>

definition fresh :: "heap \<Rightarrow> heap \<Rightarrow> nat \<Rightarrow> bool" where
  "fresh H0 H r =
     (length (objs H0) \<le> r \<and> r < length (objs H) \<and>
      length (lsts H0) \<le> o_passages (objs H ! r) \<and> o_passages (objs H ! r) < length (lsts H) \<and>
      o_meta (objs H ! r) = None)"

definition heap_inv :: "heap \<Rightarrow> heap \<Rightarrow> nat list \<Rightarrow> bool" where
  "heap_inv H0 H rs =
     (prefix (objs H0) (objs H) \<and> prefix (lsts H0) (lsts H) \<and> list_all (fresh H0 H) rs)"

definition addr :: "heap \<Rightarrow> nat \<Rightarrow> nat" where
  "addr H r = o_passages (objs H ! r)"

definition sep :: "heap \<Rightarrow> heap \<Rightarrow> nat list \<Rightarrow> bool" where
  "sep H0 H rs = (heap_inv H0 H rs \<and> distinct rs \<and> distinct (map (addr H) rs))"

definition abs_merged :: "heap \<Rightarrow> (string \<times> nat) list \<Rightarrow> (string \<times> SearchHit) list" where
  "abs_merged H merged = map (\<lambda>item. (fst item, deref H (snd item))) merged"

definition finish_obj :: "heap \<Rightarrow> nat \<Rightarrow> real \<Rightarrow> int \<Rightarrow> heap" where
  "finish_obj H m s mp =
     update_obj
       (fst (alloc_list (update_obj H m (\<lambda>ob. ob\<lparr>o_score := s\<rparr>))
               (top_passages mp (lsts H ! o_passages (objs (update_obj H m (\<lambda>ob. ob\<lparr>o_score := s\<rparr>)) ! m)))))
       m (\<lambda>ob. ob\<lparr>o_passages := length (lsts H)\<rparr>)"

section \<open>Lemmas about the fusion engine\<close>

lemmas agg_defs = aggregate_default_def aggregate_search_hits_def ex_hits_def lexical_hit_def vector_hit_def
  text_rank_def vector_rank_def text_hits_def vector_hits_def setdefault_def merge_step_def ensure_def
  merge_hit_def new_hit_def or_neg_inf_def max_neg_inf_def finish_doc_def fused_score_def rrf_term_def
  top_passages_def chunk_step_def sorted_desc_def slice_to_def

lemma first_pos_less: "x \<in> set xs \<Longrightarrow> first_pos x xs < length xs"
  unfolding first_pos_def by (induction xs) auto

lemma first_pos_nth: "x \<in> set xs \<Longrightarrow> xs ! first_pos x xs = x"
  unfolding first_pos_def by (induction xs) auto

lemma first_pos_before: "j < first_pos x xs \<Longrightarrow> xs ! j \<noteq> x"
  unfolding first_pos_def using nth_length_takeWhile takeWhile_nth
  by (metis (mono_tags, lifting) nth_mem set_takeWhileD)

lemma first_pos_Cons: "first_pos x (y # ys) = (if y = x then 0 else Suc (first_pos x ys))"
  unfolding first_pos_def by simp

lemma map_of_setdefault:
  "map_of (setdefault d k v) k' = (case map_of d k' of Some w \<Rightarrow> Some w | None \<Rightarrow> if k' = k then Some v else None)"
  by (auto simp: setdefault_def update_conv' split: option.splits)

lemma map_of_rank_loop:
  "map_of (rank_loop d i hs) k =
     (case map_of d k of
        Some w \<Rightarrow> Some w
      | None \<Rightarrow> if k \<in> id_hit ` set hs then Some (i + int (first_pos k (map id_hit hs))) else None)"
proof (induction hs arbitrary: d i)
  case Nil
  then show ?case by (simp split: option.splits)
next
  case (Cons h hs)
  show ?case
    by (auto simp: Cons.IH map_of_setdefault first_pos_Cons split: option.splits)
qed

lemma distinct_setdefault: "distinct (map fst d) \<Longrightarrow> distinct (map fst (setdefault d k v))"
  by (simp add: setdefault_def distinct_update)

lemma distinct_rank_loop: "distinct (map fst d) \<Longrightarrow> distinct (map fst (rank_loop d i hs))"
  by (induction hs arbitrary: d i) (simp_all add: distinct_setdefault)

lemma id_hit_merge_hit: "id_hit (merge_hit m h) = id_hit m"
  by (simp add: merge_hit_def Let_def split: option.splits)

lemma meta_merge_hit: "meta (merge_hit m h) = meta m"
  by (simp add: merge_hit_def Let_def split: option.splits)

lemma keys_merge_step:
  "map fst (merge_step d h) =
     (if id_hit h \<in> set (map fst d) then map fst d else map fst d @ [id_hit h])"
  by (auto simp: merge_step_def ensure_def update_keys map_of_eq_None_iff
           split: option.splits dest: map_of_SomeD weak_map_of_SomeI)

lemma map_of_merge_step:
  "map_of (merge_step d h) k =
     (if k = id_hit h
      then Some (merge_hit (case map_of d k of None \<Rightarrow> new_hit k | Some m \<Rightarrow> m) h)
      else map_of d k)"
  by (auto simp: merge_step_def ensure_def update_conv' split: option.splits)

lemma merge_loop_append: "merge_loop d (hs @ [h]) = merge_step (merge_loop d hs) h"
  by (induction hs arbitrary: d) simp_all

lemma set_keys_merge_loop:
  "set (map fst (merge_loop d hs)) = set (map fst d) \<union> id_hit ` set hs"
proof (induction hs arbitrary: d)
  case Nil
  show ?case by simp
next
  case (Cons h hs)
  show ?case unfolding merge_loop.simps Cons.IH keys_merge_step by auto
qed

lemma distinct_keys_merge_step:
  "distinct (map fst d) \<Longrightarrow> distinct (map fst (merge_step d h))"
  by (simp add: keys_merge_step)

lemma distinct_keys_merge_loop:
  "distinct (map fst d) \<Longrightarrow> distinct (map fst (merge_loop d hs))"
  by (induction hs arbitrary: d) (simp_all add: distinct_keys_merge_step del: keys_merge_step)

lemma keyed_merge_step: "keyed d \<Longrightarrow> keyed (merge_step d h)"
  by (auto simp: keyed_def map_of_merge_step id_hit_merge_hit new_hit_def split: option.splits if_splits)

lemma keyed_merge_loop: "keyed d \<Longrightarrow> keyed (merge_loop d hs)"
  by (induction hs arbitrary: d) (simp_all add: keyed_merge_step)

lemma keyed_Nil: "keyed []"
  by (simp add: keyed_def)

lemma keyed_mem:
  assumes "keyed d" "distinct (map fst d)" "(k, m) \<in> set d"
  shows "id_hit m = k"
  using assms by (auto simp: keyed_def)

lemma score_loop_all2:
  "score_loop f d = Inr d' \<Longrightarrow> list_all2 (\<lambda>x y. f x = Inr y) d d'"
  by (induction d arbitrary: d') (auto split: sum.splits)

lemma score_loop_total:
  "(\<forall>x \<in> set d. \<exists>y. f x = Inr y) \<Longrightarrow> \<exists>d'. score_loop f d = Inr d'"
  by (induction d) (auto split: sum.splits)

lemma set_sorted_desc: "set (sorted_desc f xs) = set xs"
  by (simp add: sorted_desc_def)

lemma mset_sorted_desc: "mset (sorted_desc f xs) = mset xs"
  by (simp add: sorted_desc_def)

lemma distinct_map_sorted_desc: "distinct (map g (sorted_desc f xs)) = distinct (map g xs)"
proof -
  have "mset (map g (sorted_desc f xs)) = mset (map g xs)"
    by (simp add: mset_sorted_desc)
  then show ?thesis by (rule mset_eq_imp_distinct_iff)
qed

lemma length_sorted_desc: "length (sorted_desc f xs) = length xs"
  by (simp add: sorted_desc_def)

lemma rank_ge_1:
  "map_of (rank_loop [] 1 hs) k = Some r \<Longrightarrow> 1 \<le> r"
  by (auto simp: map_of_rank_loop split: if_splits)

lemma fused_score_total:
  assumes "0 \<le> rrf_k"
  shows "\<exists>s. fused_score w_text w_vector rrf_k (text_rank hs) (vector_rank hs) k = Inr s"
proof -
  have t: "\<And>r. map_of (text_rank hs) k = Some r \<Longrightarrow> rrf_k + r \<noteq> 0"
    using assms rank_ge_1 unfolding text_rank_def by fastforce
  have v: "\<And>r. map_of (vector_rank hs) k = Some r \<Longrightarrow> rrf_k + r \<noteq> 0"
    using assms rank_ge_1 unfolding vector_rank_def by fastforce
  show ?thesis
    using t v by (auto simp: fused_score_def rrf_term_def split: option.splits)
qed

lemma first_pos_append:
  "first_pos x (xs @ ys) = (if x \<in> set xs then first_pos x xs else length xs + first_pos x ys)"
  by (induction xs) (auto simp: first_pos_Cons)

lemma first_pos_absent: "x \<notin> set xs \<Longrightarrow> first_pos x xs = length xs"
  unfolding first_pos_def by (induction xs) auto

lemma keys_order_merge_loop:
  "sorted_wrt (\<lambda>a b. first_pos a (map id_hit hs) < first_pos b (map id_hit hs))
     (map fst (merge_loop [] hs))"
proof (induction hs rule: rev_induct)
  case Nil
  show ?case by simp
next
  case (snoc h hs)
  let ?ids = "map id_hit hs"
  let ?K = "map fst (merge_loop [] hs)"
  have K: "set ?K = set ?ids"
    using set_keys_merge_loop [of "[]" hs] by simp
  have old: "sorted_wrt (\<lambda>a b. first_pos a (?ids @ [id_hit h]) < first_pos b (?ids @ [id_hit h])) ?K"
    by (rule sorted_wrt_mono_rel [OF _ snoc.IH]) (use K in \<open>auto simp: first_pos_append\<close>)
  show ?case
  proof (cases "id_hit h \<in> set ?K")
    case True
    then show ?thesis
      using old by (simp add: merge_loop_append keys_merge_step)
  next
    case False
    then have nin: "id_hit h \<notin> set ?ids" using K by simp
    have "\<forall>a \<in> set ?K. first_pos a (?ids @ [id_hit h]) < first_pos (id_hit h) (?ids @ [id_hit h])"
    proof
      fix a assume "a \<in> set ?K"
      then have a: "a \<in> set ?ids" using K by simp
      then have "first_pos a ?ids < length ?ids" by (rule first_pos_less)
      then show "first_pos a (?ids @ [id_hit h]) < first_pos (id_hit h) (?ids @ [id_hit h])"
        using a nin by (simp add: first_pos_append)
    qed
    then show ?thesis
      using old False by (simp add: merge_loop_append keys_merge_step sorted_wrt_append)
  qed
qed

lemma insort_key_lex:
  fixes f :: "'a \<Rightarrow> real"
  assumes "sorted_wrt (\<lambda>a b. f a < f b \<or> (f a = f b \<and> R a b)) ys"
    and "\<forall>z \<in> set ys. R x z"
  shows "sorted_wrt (\<lambda>a b. f a < f b \<or> (f a = f b \<and> R a b)) (insort_key f x ys)"
  using assms
proof (induction ys)
  case Nil
  show ?case by simp
next
  case (Cons y ys)
  show ?case
  proof (cases "f x \<le> f y")
    case True
    then show ?thesis using Cons.prems by fastforce
  next
    case False
    then show ?thesis using Cons by (auto simp: set_insort_key)
  qed
qed

lemma sort_key_lex:
  fixes f :: "'a \<Rightarrow> real"
  assumes "sorted_wrt R xs"
  shows "sorted_wrt (\<lambda>a b. f a < f b \<or> (f a = f b \<and> R a b)) (sort_key f xs)"
  using assms
proof (induction xs)
  case Nil
  show ?case by simp
next
  case (Cons x xs)
  then show ?case by (simp add: insort_key_lex)
qed

lemma sorted_desc_lex:
  assumes "sorted_wrt R xs"
  shows "sorted_wrt (\<lambda>a b. f b < f a \<or> (f b = f a \<and> R a b)) (sorted_desc f xs)"
proof -
  have "sorted_wrt (\<lambda>a b. - f a < - f b \<or> (- f a = - f b \<and> R a b)) (sort_key (\<lambda>x. - f x) xs)"
    by (rule sort_key_lex [OF assms])
  then show ?thesis
    unfolding sorted_desc_def by (rule sorted_wrt_mono_rel [rotated]) auto
qed

lemma finish_docD:
  assumes "finish_doc w_text w_vector rrf_k mp tr vr x = Inr y"
  shows "fst y = fst x" "id_hit (snd y) = id_hit (snd x)"
    "fused_score w_text w_vector rrf_k tr vr (fst x) = Inr (score (snd y))"
    "passages (snd y) = top_passages mp (passages (snd x))"
    "bm25 (snd y) = bm25 (snd x)" "cosine (snd y) = cosine (snd x)" "meta (snd y) = meta (snd x)"
  using assms by (auto simp: finish_doc_def split: sum.splits)

lemma merged_item_id:
  assumes "x \<in> set (merge_loop [] hs)"
  shows "id_hit (snd x) = fst x"
proof -
  have "keyed (merge_loop [] hs)" by (rule keyed_merge_loop [OF keyed_Nil])
  moreover have "distinct (map fst (merge_loop [] hs))"
    by (rule distinct_keys_merge_loop) simp
  ultimately show ?thesis
    using assms keyed_mem [of "merge_loop [] hs" "fst x" "snd x"] by simp
qed

lemma aggregateD:
  assumes "aggregate_search_hits hs w_text w_vector rrf_k mp = Inr out"
  obtains d' where
    "list_all2 (\<lambda>x y. finish_doc w_text w_vector rrf_k mp (text_rank hs) (vector_rank hs) x = Inr y)
       (merge_loop [] hs) d'"
    "out = sorted_desc score (map snd d')"
  using assms score_loop_all2
  by (fastforce simp: aggregate_search_hits_def split: sum.splits)

lemma all2_ids:
  assumes "list_all2 (\<lambda>x y. finish_doc w_text w_vector rrf_k mp tr vr x = Inr y) d d'"
    and "\<forall>x \<in> set d. id_hit (snd x) = fst x"
  shows "map (\<lambda>y. id_hit (snd y)) d' = map fst d"
  using assms by (induction rule: list_all2_induct) (auto dest: finish_docD(2))

lemma aggregate_ids:
  assumes "aggregate_search_hits hs w_text w_vector rrf_k mp = Inr out"
  shows "mset (map id_hit out) = mset (map fst (merge_loop [] hs))"
proof -
  from assms obtain d' where
    d': "list_all2 (\<lambda>x y. finish_doc w_text w_vector rrf_k mp (text_rank hs) (vector_rank hs) x = Inr y)
       (merge_loop [] hs) d'" and out: "out = sorted_desc score (map snd d')"
    by (rule aggregateD)
  have "map (\<lambda>y. id_hit (snd y)) d' = map fst (merge_loop [] hs)"
    by (rule all2_ids [OF d']) (simp add: merged_item_id)
  then have "map id_hit (map snd d') = map fst (merge_loop [] hs)" by (simp add: comp_def)
  then show ?thesis
    unfolding out by (metis mset_map mset_sorted_desc)
qed

lemma all2_preimage:
  assumes "list_all2 P xs ys" and "y \<in> set ys"
  shows "\<exists>x \<in> set xs. P x y"
  using assms by (induction rule: list_all2_induct) auto

lemma aggregate_member:
  assumes "aggregate_search_hits hs w_text w_vector rrf_k mp = Inr out" and "m \<in> set out"
  obtains x where "x \<in> set (merge_loop [] hs)" "fst x = id_hit m"
    "finish_doc w_text w_vector rrf_k mp (text_rank hs) (vector_rank hs) x = Inr (id_hit m, m)"
proof -
  from assms(1) obtain d' where
    d': "list_all2 (\<lambda>x y. finish_doc w_text w_vector rrf_k mp (text_rank hs) (vector_rank hs) x = Inr y)
       (merge_loop [] hs) d'" and out: "out = sorted_desc score (map snd d')"
    by (rule aggregateD)
  from assms(2) out obtain y where y: "y \<in> set d'" "snd y = m"
    by (auto simp: set_sorted_desc)
  from all2_preimage [OF d' y(1)] obtain x where x: "x \<in> set (merge_loop [] hs)"
    "finish_doc w_text w_vector rrf_k mp (text_rank hs) (vector_rank hs) x = Inr y"
    by blast
  have "fst y = fst x" "id_hit (snd y) = id_hit (snd x)"
    using finish_docD(1,2) [OF x(2)] by simp_all
  moreover have "id_hit (snd x) = fst x" by (rule merged_item_id [OF x(1)])
  ultimately have "fst x = id_hit m" "y = (id_hit m, m)"
    using y(2) by (auto simp: prod_eq_iff)
  with x that show thesis by blast
qed

lemma aggregate_total:
  assumes "0 \<le> rrf_k"
  shows "\<exists>out. aggregate_search_hits hs w_text w_vector rrf_k mp = Inr out"
proof -
  have "\<forall>x \<in> set (merge_loop [] hs).
          \<exists>y. finish_doc w_text w_vector rrf_k mp (text_rank hs) (vector_rank hs) x = Inr y"
    using fused_score_total [OF assms, of w_text w_vector hs]
    by (simp add: finish_doc_def split: sum.splits) (metis sum.exhaust sum.distinct(1))
  from score_loop_total [OF this] show ?thesis
    by (auto simp: aggregate_search_hits_def)
qed

lemma aggregate_Nil: "aggregate_search_hits [] w_text w_vector rrf_k mp = Inr []"
  by (simp add: aggregate_search_hits_def sorted_desc_def)

lemma take_first_pos: "take (first_pos d xs) xs = takeWhile (\<lambda>y. y \<noteq> d) xs"
  unfolding first_pos_def by (rule takeWhile_eq_take [symmetric])

lemma rank_loop_first_position:
  assumes "map_of (rank_loop [] 1 xs) d = Some r"
  shows "is_first_position xs d r"
proof -
  let ?ids = "map id_hit xs"
  from assms have d: "d \<in> set ?ids" and r: "r = 1 + int (first_pos d ?ids)"
    by (auto simp: map_of_rank_loop split: if_splits)
  have lt: "first_pos d ?ids < length xs"
    using first_pos_less [OF d] by simp
  have at: "id_hit (xs ! first_pos d ?ids) = d"
    using first_pos_nth [OF d] lt by simp
  have "d \<notin> set (take (first_pos d ?ids) ?ids)"
    unfolding take_first_pos by (auto dest: set_takeWhileD)
  then have "d \<notin> id_hit ` set (take (first_pos d ?ids) xs)"
    by (simp add: take_map)
  moreover have "nat r = Suc (first_pos d ?ids)" "1 \<le> r"
    unfolding r by linarith+
  ultimately show ?thesis
    using lt at by (simp add: is_first_position_def)
qed

lemma fused_score_value:
  assumes "fused_score w_text w_vector rrf_k tr vr d = Inr s"
  shows "s = (case map_of tr d of None \<Rightarrow> 0 | Some r \<Rightarrow> w_text * (1 / real_of_int (rrf_k + r))) +
             (case map_of vr d of None \<Rightarrow> 0 | Some r \<Rightarrow> w_vector * (1 / real_of_int (rrf_k + r)))"
  using assms by (auto simp: fused_score_def rrf_term_def split: option.splits sum.splits if_splits)

lemma ex_hits_ranks:
  "map_of (text_rank ex_hits) ''a'' = Some 1" "map_of (vector_rank ex_hits) ''a'' = Some 1"
  by (simp_all add: agg_defs)

lemma dup_hits_ranks:
  "map_of (text_rank dup_hits) ''a'' = Some 1" "map_of (vector_rank dup_hits) ''a'' = None"
  by (simp_all add: agg_defs dup_hits_def)

lemma ex_hits_result:
  "aggregate_search_hits ex_hits 1 1 60 3 = Inr
   [\<lparr>id_hit = ''a'', bm25 = Some 3, cosine = Some 5, score = 2/61, meta = None,
      passages = [\<lparr>chunk_id = ''a1'', text_psg = ''t'', score_psg = 5, retriever = Vector\<rparr>,
                  \<lparr>chunk_id = ''a2'', text_psg = ''t'', score_psg = 2, retriever = Bm25\<rparr>]\<rparr>,
    \<lparr>id_hit = ''c'', bm25 = None, cosine = Some 4, score = 1/62, meta = None,
      passages = [\<lparr>chunk_id = ''c1'', text_psg = ''t'', score_psg = 4, retriever = Vector\<rparr>]\<rparr>,
    \<lparr>id_hit = ''b'', bm25 = Some 1, cosine = None, score = 1/63, meta = None,
      passages = [\<lparr>chunk_id = ''b1'', text_psg = ''t'', score_psg = 1, retriever = Bm25\<rparr>]\<rparr>]"
  by (simp add: agg_defs)

lemma dup_hits_result:
  "aggregate_search_hits dup_hits 1 1 60 3 = Inr
   [\<lparr>id_hit = ''a'', bm25 = Some 3, cosine = None, score = 1/61, meta = None,
      passages = [\<lparr>chunk_id = ''a1'', text_psg = ''t'', score_psg = 3, retriever = Bm25\<rparr>,
                  \<lparr>chunk_id = ''a2'', text_psg = ''t'', score_psg = 2, retriever = Bm25\<rparr>]\<rparr>,
    \<lparr>id_hit = ''b'', bm25 = Some 1, cosine = None, score = 1/63, meta = None,
      passages = [\<lparr>chunk_id = ''b1'', text_psg = ''t'', score_psg = 1, retriever = Bm25\<rparr>]\<rparr>]"
  by (simp add: agg_defs dup_hits_def)

lemma tie_hits_result:
  "aggregate_search_hits tie_hits 1 1 60 3 = Inr
   [\<lparr>id_hit = ''b'', bm25 = Some 2, cosine = None, score = 1/61, meta = None,
      passages = [\<lparr>chunk_id = ''b1'', text_psg = ''t'', score_psg = 2, retriever = Bm25\<rparr>]\<rparr>,
    \<lparr>id_hit = ''a'', bm25 = None, cosine = Some 7, score = 1/61, meta = None,
      passages = [\<lparr>chunk_id = ''a1'', text_psg = ''t'', score_psg = 7, retriever = Vector\<rparr>]\<rparr>,
    \<lparr>id_hit = ''c'', bm25 = Some 1, cosine = None, score = 1/62, meta = None,
      passages = [\<lparr>chunk_id = ''c1'', text_psg = ''t'', score_psg = 1, retriever = Bm25\<rparr>]\<rparr>]"
  by (simp add: agg_defs tie_hits_def)

lemma map_of_Some_key: "map_of d k = Some v \<Longrightarrow> k \<in> fst ` set d"
  by (metis map_of_SomeD fst_conv image_eqI)

lemma keys_chunk_step:
  "map fst (chunk_step d p) =
     (if chunk_id p \<in> set (map fst d) then map fst d else map fst d @ [chunk_id p])"
  by (auto simp: chunk_step_def update_keys map_of_eq_None_iff
           split: option.splits dest: map_of_Some_key)

lemma map_of_chunk_step:
  "map_of (chunk_step d p) c =
     (if c = chunk_id p
      then (case map_of d c of
              None \<Rightarrow> Some p
            | Some old \<Rightarrow> if score_psg old < score_psg p then Some p else Some old)
      else map_of d c)"
  by (auto simp: chunk_step_def update_conv' split: option.splits)

lemma best_by_chunk_append: "best_by_chunk d (ps @ [p]) = chunk_step (best_by_chunk d ps) p"
  by (induction ps arbitrary: d) simp_all

lemma distinct_keys_best_by_chunk:
  "distinct (map fst d) \<Longrightarrow> distinct (map fst (best_by_chunk d ps))"
  by (induction ps arbitrary: d) (simp_all add: keys_chunk_step)

lemma set_keys_best_by_chunk:
  "set (map fst (best_by_chunk d ps)) = set (map fst d) \<union> chunk_id ` set ps"
proof (induction ps arbitrary: d)
  case Nil
  show ?case by simp
next
  case (Cons p ps)
  show ?case unfolding best_by_chunk.simps Cons.IH keys_chunk_step by auto
qed

lemma exists_best:
  assumes "q \<in> set ps" "chunk_id q = c"
  shows "\<exists>b \<in> set ps. chunk_id b = c \<and> (\<forall>q' \<in> set ps. chunk_id q' = c \<longrightarrow> score_psg q' \<le> score_psg b)"
proof -
  let ?A = "score_psg ` {q \<in> set ps. chunk_id q = c}"
  have fin: "finite ?A" by simp
  have ne: "?A \<noteq> {}" using assms by auto
  from Max_in [OF fin ne] obtain b where b: "b \<in> set ps" "chunk_id b = c" "score_psg b = Max ?A"
    by auto
  have "\<forall>q' \<in> set ps. chunk_id q' = c \<longrightarrow> score_psg q' \<le> score_psg b"
    using Max_ge [OF fin] b(3) by auto
  with b show ?thesis by blast
qed

lemma best_for_chunk_None: "best_for_chunk ps c = None \<longleftrightarrow> c \<notin> chunk_id ` set ps"
proof
  assume n: "best_for_chunk ps c = None"
  show "c \<notin> chunk_id ` set ps"
  proof
    assume "c \<in> chunk_id ` set ps"
    then obtain q where "q \<in> set ps" "chunk_id q = c" by auto
    from exists_best [OF this] n show False
      by (auto simp: best_for_chunk_def find_None_iff)
  qed
next
  assume "c \<notin> chunk_id ` set ps"
  then show "best_for_chunk ps c = None"
    by (auto simp: best_for_chunk_def find_None_iff)
qed

lemma best_for_chunk_SomeD:
  assumes "best_for_chunk ps c = Some p"
  shows "p \<in> set ps" "chunk_id p = c"
    "\<forall>q \<in> set ps. chunk_id q = c \<longrightarrow> score_psg q \<le> score_psg p"
  using assms by (auto simp: best_for_chunk_def find_Some_iff)

lemma find_append:
  "List.find P (xs @ ys) = (case List.find P xs of None \<Rightarrow> List.find P ys | Some x \<Rightarrow> Some x)"
  by (induction xs) auto

lemma best_for_chunk_snoc:
  "best_for_chunk (ps @ [p]) c =
     (if c = chunk_id p
      then (case best_for_chunk ps c of
              None \<Rightarrow> Some p
            | Some old \<Rightarrow> if score_psg old < score_psg p then Some p else Some old)
      else best_for_chunk ps c)"
proof (cases "c = chunk_id p")
  case False
  have "List.find (\<lambda>q. chunk_id q = c \<and> (\<forall>q' \<in> set (ps @ [p]). chunk_id q' = c \<longrightarrow> score_psg q' \<le> score_psg q)) ps
      = List.find (\<lambda>q. chunk_id q = c \<and> (\<forall>q' \<in> set ps. chunk_id q' = c \<longrightarrow> score_psg q' \<le> score_psg q)) ps"
    by (rule find_cong) (use False in auto)
  then show ?thesis
    using False by (simp add: best_for_chunk_def find_append split: option.splits)
next
  case True
  show ?thesis
  proof (cases "best_for_chunk ps c")
    case None
    then have no: "\<forall>q \<in> set ps. chunk_id q \<noteq> c"
      by (auto simp: best_for_chunk_None)
    then have "List.find (\<lambda>q. chunk_id q = c \<and> (\<forall>q' \<in> set (ps @ [p]). chunk_id q' = c \<longrightarrow> score_psg q' \<le> score_psg q)) ps = None"
      by (auto simp: find_None_iff)
    then show ?thesis
      using True None no by (auto simp: best_for_chunk_def find_append)
  next
    case (Some old)
    note old = best_for_chunk_SomeD [OF Some]
    show ?thesis
    proof (cases "score_psg old < score_psg p")
      case lt: True
      have "List.find (\<lambda>q. chunk_id q = c \<and> (\<forall>q' \<in> set (ps @ [p]). chunk_id q' = c \<longrightarrow> score_psg q' \<le> score_psg q)) ps = None"
        using old lt True by (fastforce simp: find_None_iff)
      then show ?thesis
        using True Some lt old by (fastforce simp: best_for_chunk_def find_append)
    next
      case ge: False
      have "List.find (\<lambda>q. chunk_id q = c \<and> (\<forall>q' \<in> set (ps @ [p]). chunk_id q' = c \<longrightarrow> score_psg q' \<le> score_psg q)) ps
        = List.find (\<lambda>q. chunk_id q = c \<and> (\<forall>q' \<in> set ps. chunk_id q' = c \<longrightarrow> score_psg q' \<le> score_psg q)) ps"
      proof (rule find_cong)
        fix q assume q: "q \<in> set ps"
        show "(chunk_id q = c \<and> (\<forall>q' \<in> set (ps @ [p]). chunk_id q' = c \<longrightarrow> score_psg q' \<le> score_psg q))
            = (chunk_id q = c \<and> (\<forall>q' \<in> set ps. chunk_id q' = c \<longrightarrow> score_psg q' \<le> score_psg q))"
          using old ge q by fastforce
      qed simp
      then show ?thesis
        using True Some ge by (simp add: best_for_chunk_def find_append)
    qed
  qed
qed

lemma map_of_best_by_chunk: "map_of (best_by_chunk [] ps) c = best_for_chunk ps c"
proof (induction ps arbitrary: c rule: rev_induct)
  case Nil
  show ?case by (simp add: best_for_chunk_def)
next
  case (snoc p ps)
  show ?case
    by (simp add: best_by_chunk_append map_of_chunk_step best_for_chunk_snoc snoc.IH)
qed

lemma survivors_props:
  fixes ps :: "Passage list"
  defines "S \<equiv> map snd (best_by_chunk [] ps)"
  shows "map chunk_id S = map fst (best_by_chunk [] ps)"
    and "distinct (map chunk_id S)"
    and "set (map chunk_id S) = set (map chunk_id ps)"
    and "\<forall>p \<in> set S. best_for_chunk ps (chunk_id p) = Some p"
proof -
  let ?d = "best_by_chunk [] ps"
  have dist: "distinct (map fst ?d)"
    by (rule distinct_keys_best_by_chunk) simp
  have item: "chunk_id (snd x) = fst x \<and> best_for_chunk ps (fst x) = Some (snd x)"
    if "x \<in> set ?d" for x
  proof -
    have "map_of ?d (fst x) = Some (snd x)"
      using dist that by simp
    then have b: "best_for_chunk ps (fst x) = Some (snd x)"
      by (simp add: map_of_best_by_chunk)
    with best_for_chunk_SomeD(2) [OF b] show ?thesis by simp
  qed
  show keys: "map chunk_id S = map fst ?d"
    unfolding S_def using item by simp
  show "distinct (map chunk_id S)"
    unfolding keys by (rule dist)
  show "set (map chunk_id S) = set (map chunk_id ps)"
    unfolding keys using set_keys_best_by_chunk [of "[]" ps] by simp
  show "\<forall>p \<in> set S. best_for_chunk ps (chunk_id p) = Some p"
    unfolding S_def using item by auto
qed

lemma passages_merge_hit: "passages (merge_hit m h) = passages m @ passages h"
  by (simp add: merge_hit_def Let_def split: option.splits)

lemma passages_merge_loop:
  assumes "map_of (merge_loop [] hs) d = Some m"
  shows "passages m = concat (map passages (filter (\<lambda>h. id_hit h = d) hs))"
  using assms
proof (induction hs arbitrary: m rule: rev_induct)
  case Nil
  then show ?case by simp
next
  case (snoc h hs)
  show ?case
  proof (cases "d = id_hit h")
    case False
    then show ?thesis
      using snoc by (simp add: merge_loop_append map_of_merge_step)
  next
    case True
    show ?thesis
    proof (cases "map_of (merge_loop [] hs) d")
      case None
      then have "d \<notin> set (map fst (merge_loop [] hs))"
        by (simp add: map_of_eq_None_iff)
      then have "d \<notin> id_hit ` set hs"
        using set_keys_merge_loop [of "[]" hs] by simp
      then have "filter (\<lambda>h. id_hit h = d) hs = []"
        by (auto simp: filter_empty_conv)
      then show ?thesis
        using snoc.prems True None
        by (auto simp: merge_loop_append map_of_merge_step passages_merge_hit new_hit_def)
    next
      case (Some m0)
      then show ?thesis
        using snoc.prems True snoc.IH [OF Some]
        by (auto simp: merge_loop_append map_of_merge_step passages_merge_hit)
    qed
  qed
qed

lemma sorted_desc_sorted: "sorted_wrt (\<lambda>p q. f q \<le> f p) (sorted_desc f xs)"
proof -
  have "sorted (map (\<lambda>x. - f x) (sort_key (\<lambda>x. - f x) xs))"
    by (rule sorted_sort_key)
  then show ?thesis
    by (simp add: sorted_desc_def sorted_map)
qed

lemma slice_to_nonneg: "0 \<le> n \<Longrightarrow> slice_to n xs = take (nat n) xs"
  by (simp add: slice_to_def)

lemma sorted_wrt_take: "sorted_wrt R xs \<Longrightarrow> sorted_wrt R (take n xs)"
  by (metis append_take_drop_id sorted_wrt_append)

lemma aggregate_passages:
  assumes "aggregate_search_hits hs w_text w_vector rrf_k mp = Inr out" and "m \<in> set out"
  shows "passages m =
           top_passages mp (concat (map passages (filter (\<lambda>h. id_hit h = id_hit m) hs)))"
proof -
  from assms obtain x where x: "x \<in> set (merge_loop [] hs)" "fst x = id_hit m"
    "finish_doc w_text w_vector rrf_k mp (text_rank hs) (vector_rank hs) x = Inr (id_hit m, m)"
    by (rule aggregate_member)
  have "distinct (map fst (merge_loop [] hs))"
    by (rule distinct_keys_merge_loop) simp
  then have "map_of (merge_loop [] hs) (fst x) = Some (snd x)"
    using x(1) by simp
  then have "passages (snd x) = concat (map passages (filter (\<lambda>h. id_hit h = id_hit m) hs))"
    using passages_merge_loop x(2) by simp
  then show ?thesis
    using finish_docD(4) [OF x(3)] by simp
qed

lemma top_passages_props:
  assumes "0 \<le> mp"
  shows "\<exists>S. distinct (map chunk_id S) \<and>
           set (map chunk_id S) = chunk_id ` set ps \<and>
           (\<forall>p \<in> set S. best_for_chunk ps (chunk_id p) = Some p) \<and>
           top_passages mp ps = take (nat mp) (sorted_desc score_psg S)"
    and "sorted_wrt (\<lambda>p q. score_psg q \<le> score_psg p) (top_passages mp ps)"
    and "length (top_passages mp ps) \<le> nat mp"
    and "distinct (map chunk_id (top_passages mp ps))"
    and "\<forall>p \<in> set (top_passages mp ps). best_for_chunk ps (chunk_id p) = Some p"
proof -
  let ?S = "map snd (best_by_chunk [] ps)"
  have top: "top_passages mp ps = take (nat mp) (sorted_desc score_psg ?S)"
    using assms by (simp add: top_passages_def slice_to_nonneg)
  note S = survivors_props [of ps]
  show "\<exists>S. distinct (map chunk_id S) \<and>
           set (map chunk_id S) = chunk_id ` set ps \<and>
           (\<forall>p \<in> set S. best_for_chunk ps (chunk_id p) = Some p) \<and>
           top_passages mp ps = take (nat mp) (sorted_desc score_psg S)"
    using S(2,3,4) top by (intro exI [of _ ?S]) simp
  show "sorted_wrt (\<lambda>p q. score_psg q \<le> score_psg p) (top_passages mp ps)"
    unfolding top by (rule sorted_wrt_take [OF sorted_desc_sorted])
  show "length (top_passages mp ps) \<le> nat mp"
    unfolding top by simp
  have "distinct (map chunk_id (sorted_desc score_psg ?S))"
    using S(2) by (simp add: distinct_map_sorted_desc)
  then show "distinct (map chunk_id (top_passages mp ps))"
    unfolding top by (simp add: take_map [symmetric] distinct_take del: take_map)
  have "set (top_passages mp ps) \<subseteq> set ?S"
    unfolding top using set_take_subset [of "nat mp" "sorted_desc score_psg ?S"]
    by (simp add: set_sorted_desc)
  then show "\<forall>p \<in> set (top_passages mp ps). best_for_chunk ps (chunk_id p) = Some p"
    using S(4) by blast
qed

lemma two_hits_one_doc:
  assumes id: "id_hit h1 = id_hit h2" and k: "0 \<le> rrf_k"
  shows "\<exists>m. aggregate_search_hits [h1, h2] w_text w_vector rrf_k mp = Inr [m] \<and>
             passages m = top_passages mp (passages h1 @ passages h2)"
proof -
  from aggregate_total [OF k] obtain out where
    out: "aggregate_search_hits [h1, h2] w_text w_vector rrf_k mp = Inr out" by blast
  have "mset (map id_hit out) = mset (map fst (merge_loop [] [h1, h2]))"
    by (rule aggregate_ids [OF out])
  also have "map fst (merge_loop [] [h1, h2]) = [id_hit h1]"
    using id by (simp add: keys_merge_step)
  finally have ms: "mset (map id_hit out) = mset [id_hit h1]" .
  then have "length out = 1"
    by (metis length_map size_mset length_Cons list.size(3) One_nat_def)
  then obtain m where m: "out = [m]"
    by (cases out) auto
  have "passages m = top_passages mp (concat (map passages (filter (\<lambda>h. id_hit h = id_hit m) [h1, h2])))"
    by (rule aggregate_passages [OF out]) (simp add: m)
  moreover have "id_hit m = id_hit h1"
    using ms m by simp
  ultimately have "passages m = top_passages mp (passages h1 @ passages h2)"
    using id by simp
  with out m show ?thesis by blast
qed

lemma top_passages_same_chunk:
  assumes "chunk_id p1 = chunk_id p2" "1 \<le> mp"
  shows "top_passages mp [p1, p2] = [if score_psg p1 < score_psg p2 then p2 else p1]"
proof -
  from assms(2) obtain n where n: "nat mp = Suc n"
    by (metis Suc_nat_eq_nat_zadd1 add.commute diff_ge_0_iff_ge diff_add_cancel)
  show ?thesis
    using assms n by (simp add: top_passages_def chunk_step_def sorted_desc_def slice_to_def)
qed

lemma dedup_hits_result:
  "aggregate_search_hits dedup_hits 1 1 60 3 = Inr
   [\<lparr>id_hit = ''a'', bm25 = Some 5, cosine = Some 3, score = 2/61, meta = None,
      passages = [\<lparr>chunk_id = ''c2'', text_psg = ''t'', score_psg = 5, retriever = Bm25\<rparr>,
                  \<lparr>chunk_id = ''c3'', text_psg = ''t'', score_psg = 4, retriever = Bm25\<rparr>,
                  \<lparr>chunk_id = ''c4'', text_psg = ''t'', score_psg = 3, retriever = Vector\<rparr>]\<rparr>]"
  by (simp add: agg_defs dedup_hits_def)

lemma same_chunk_hits_result:
  "aggregate_search_hits same_chunk_hits 1 1 60 3 = Inr
   [\<lparr>id_hit = ''a'', bm25 = Some 1, cosine = Some 2, score = 2/61, meta = None,
      passages = [\<lparr>chunk_id = ''c1'', text_psg = ''t'', score_psg = 2, retriever = Vector\<rparr>]\<rparr>]"
  by (simp add: agg_defs same_chunk_hits_def)

section \<open>Lemmas about the snippet extractor\<close>

lemma occurs_at_0: "occurs_at t q 0 = prefix q t"
  by (simp add: occurs_at_def)

lemma occurs_at_Suc: "occurs_at (c # cs) q (Suc j) = occurs_at cs q j"
  by (simp add: occurs_at_def)

lemma str_find_ge: "- 1 \<le> str_find t q"
  by (induction t) (auto simp: Let_def)

lemma str_find_none:
  "(\<forall>j. \<not> occurs_at t q j) \<Longrightarrow> str_find t q = - 1"
proof (induction t)
  case Nil
  then show ?case using occurs_at_0 [of "[]" q] by auto
next
  case (Cons c cs)
  have "\<not> prefix q (c # cs)" using Cons.prems occurs_at_0 by metis
  moreover have "\<forall>j. \<not> occurs_at cs q j" using Cons.prems occurs_at_Suc by metis
  ultimately show ?case using Cons.IH by simp
qed

lemma str_find_first:
  "occurs_at t q i \<Longrightarrow> (\<forall>j<i. \<not> occurs_at t q j) \<Longrightarrow> str_find t q = int i"
proof (induction t arbitrary: i)
  case Nil
  then have q: "q = []" by (simp add: occurs_at_def)
  have "i = 0"
  proof (rule ccontr)
    assume "i \<noteq> 0"
    then have "\<not> occurs_at [] q 0" using Nil.prems(2) by simp
    then show False using q by (simp add: occurs_at_def)
  qed
  then show ?case using q by simp
next
  case (Cons c cs)
  show ?case
  proof (cases i)
    case 0
    then show ?thesis using Cons.prems(1) by (simp add: occurs_at_0)
  next
    case (Suc k)
    then have np: "\<not> prefix q (c # cs)"
      using Cons.prems(2) occurs_at_0 by (metis zero_less_Suc)
    have "occurs_at cs q k" using Cons.prems(1) Suc by (simp add: occurs_at_Suc)
    moreover have "\<forall>j<k. \<not> occurs_at cs q j"
      using Cons.prems(2) Suc occurs_at_Suc by (metis Suc_less_eq)
    ultimately have "str_find cs q = int k" using Cons.IH by blast
    then show ?thesis using np Suc by (simp add: Let_def)
  qed
qed

lemma str_find_found:
  "str_find t q \<noteq> - 1 \<Longrightarrow>
     occurs_at t q (nat (str_find t q)) \<and> (\<forall>j < nat (str_find t q). \<not> occurs_at t q j)"
proof (induction t)
  case Nil
  then show ?case by (simp add: occurs_at_def split: if_splits)
next
  case (Cons c cs)
  show ?case
  proof (cases "prefix q (c # cs)")
    case True
    then show ?thesis by (simp add: occurs_at_0)
  next
    case False
    with Cons.prems have r: "str_find cs q \<noteq> - 1" by (auto simp: Let_def split: if_splits)
    from str_find_ge [of cs q] r have nn: "0 \<le> str_find cs q" by linarith
    from False r have f: "str_find (c # cs) q = str_find cs q + 1" by (simp add: Let_def)
    have n: "nat (str_find cs q + 1) = Suc (nat (str_find cs q))" using nn by linarith
    from Cons.IH [OF r] have occ: "occurs_at cs q (nat (str_find cs q))"
      and first: "\<forall>j < nat (str_find cs q). \<not> occurs_at cs q j" by simp_all
    have "\<not> occurs_at (c # cs) q j" if "j < Suc (nat (str_find cs q))" for j
    proof (cases j)
      case 0
      then show ?thesis using False by (simp add: occurs_at_0)
    next
      case (Suc k)
      then show ?thesis using that first by (simp add: occurs_at_Suc)
    qed
    then show ?thesis unfolding f n using occ by (simp add: occurs_at_Suc)
  qed
qed

lemma slice_nonneg:
  "0 \<le> i \<Longrightarrow> 0 \<le> j \<Longrightarrow> slice i j xs = drop (nat i) (take (nat j) xs)"
  by (auto simp: slice_def Let_def min_def)

lemma make_snippet_empty_text: "make_snippet U [] query window = []"
  by (simp add: make_snippet_def)

lemma make_snippet_prefix_case:
  assumes "txt \<noteq> []"
    and "strip U query = [] \<or> (\<forall>j. \<not> occurs_at (lower U txt) (lower U (strip U query)) j)"
  shows "make_snippet U txt query window =
           slice_to window txt @ (if window < int (length txt) then ellipsis U else [])"
proof (cases "strip U query = []")
  case True
  then show ?thesis using assms(1) by (simp add: make_snippet_def Let_def)
next
  case False
  with assms(2) have "str_find (lower U txt) (lower U (strip U query)) = - 1"
    using str_find_none by blast
  then show ?thesis using assms(1) by (simp add: make_snippet_def Let_def)
qed

lemma make_snippet_prefix_case_nonneg:
  assumes "0 \<le> window"
    and "strip U query = [] \<or> (\<forall>j. \<not> occurs_at (lower U txt) (lower U (strip U query)) j)"
  shows "make_snippet U txt query window =
           take (nat window) txt @ (if nat window < length txt then ellipsis U else [])"
proof (cases "txt = []")
  case True
  then show ?thesis by (simp add: make_snippet_def)
next
  case False
  have e: "(window < int (length txt)) = (nat window < length txt)"
    using assms(1) by linarith
  show ?thesis
    unfolding make_snippet_prefix_case [OF False assms(2)]
    by (simp only: e slice_to_nonneg [OF assms(1)])
qed

lemma make_snippet_found_case:
  assumes t: "txt \<noteq> []" and q: "strip U query \<noteq> []"
    and occ: "occurs_at (lower U txt) (lower U (strip U query)) idx"
    and first: "\<forall>j<idx. \<not> occurs_at (lower U txt) (lower U (strip U query)) j"
  shows "make_snippet U txt query window = window_at (ellipsis U) txt (int idx) window"
proof -
  have f: "str_find (lower U txt) (lower U (strip U query)) = int idx"
    by (rule str_find_first [OF occ first])
  show ?thesis using t q by (simp add: make_snippet_def window_at_def Let_def f)
qed

lemma window_at_nonneg:
  assumes "0 \<le> window"
  shows "window_at marker txt (int idx) window =
           (if 0 < idx - nat window div 2 then marker else []) @
           drop (idx - nat window div 2) (take (min (length txt) (idx + nat window div 2)) txt) @
           (if min (length txt) (idx + nat window div 2) < length txt then marker else [])"
proof -
  have h: "window div 2 = int (nat window div 2)"
    using assms by (simp add: zdiv_int)
  let ?k = "nat window div 2"
  have st: "nat (max 0 (int idx - int ?k)) = idx - ?k"
    by linarith
  have st0: "(0 < max 0 (int idx - int ?k)) = (0 < idx - ?k)"
    by linarith
  have en: "nat (min (int (length txt)) (int idx + int ?k)) = min (length txt) (idx + ?k)"
    by linarith
  have en0: "(min (int (length txt)) (int idx + int ?k) < int (length txt))
              = (min (length txt) (idx + ?k) < length txt)"
    by linarith
  have sl: "slice (max 0 (int idx - int ?k)) (min (int (length txt)) (int idx + int ?k)) txt
          = drop (idx - ?k) (take (min (length txt) (idx + ?k)) txt)"
  proof -
    have "slice (max 0 (int idx - int ?k)) (min (int (length txt)) (int idx + int ?k)) txt
        = drop (nat (max 0 (int idx - int ?k)))
            (take (nat (min (int (length txt)) (int idx + int ?k))) txt)"
      by (rule slice_nonneg) auto
    then show ?thesis by (simp only: st en)
  qed
  show ?thesis by (simp add: window_at_def Let_def h st0 en0 sl)
qed

lemma lower_char_simps:
  "lower_char CHR ''B'' = CHR ''b''" "lower_char CHR ''R'' = CHR ''r''"
  "lower_char CHR ''O'' = CHR ''o''" "lower_char CHR ''W'' = CHR ''w''"
  "lower_char CHR ''N'' = CHR ''n''"
  by code_simp+

lemma lower_char_lowercase:
  "0x61 \<le> (of_char c :: nat) \<Longrightarrow> (of_char c :: nat) \<le> 0x7A \<Longrightarrow> lower_char c = c"
  by (simp add: lower_char_def)

lemma lower_char_space: "lower_char CHR '' '' = CHR '' ''"
  by code_simp

lemma lower_fox: "lower latin1 ''the quick brown fox'' = ''the quick brown fox''"
  by code_simp

lemma strip_brown: "strip latin1 '' BROWN  '' = ''BROWN''"
  by code_simp

lemma lower_brown: "lower latin1 ''BROWN'' = ''brown''"
  by code_simp

lemma brown_at_10:
  "occurs_at ''the quick brown fox'' ''brown'' 10"
  "\<forall>j<10. \<not> occurs_at ''the quick brown fox'' ''brown'' j"
  by (simp_all add: occurs_at_def All_less_Suc numeral_eq_Suc)

lemma strip_needle: "strip dotted needle = needle"
  by code_simp

lemma lower_needle: "lower dotted needle = needle"
  by code_simp

lemma lower_dotted_text:
  "lower dotted dotted_text = Latin1 CHR ''i'' # Combining_dot_above # map Latin1 '' needle''"
  by code_simp

lemma find_needle:
  "str_find (Latin1 CHR ''i'' # Combining_dot_above # map Latin1 '' needle'') needle = 3"
  by code_simp

lemma snippet_dotted: "make_snippet dotted dotted_text needle 2 = map Latin1 ''...ne...''"
  by code_simp

lemma window_dotted_3:
  "window_at (ellipsis dotted) dotted_text 3 2 = map Latin1 ''...ne...''"
  by code_simp

lemma length_dotted: "length dotted_text = 8" "length (lower dotted dotted_text) = 9"
  by code_simp+

lemma find_dotted: "str_find (lower dotted dotted_text) (lower dotted (strip dotted needle)) = 3"
  by code_simp

lemma window_dotted_2:
  "window_at (ellipsis dotted) dotted_text 2 2 = map Latin1 ''... n...''"
  by code_simp

lemma occurs_dotted:
  "occurs_at dotted_text needle 2" "\<not> occurs_at dotted_text needle 0"
  "\<not> occurs_at dotted_text needle 1"
  by code_simp+

lemma snippet_hello: "make_snippet latin1 ''hello world'' [] 4 = ''hell...''"
  by code_simp

section \<open>Lemmas about the orchestrator\<close>

lemma bind_io_Inl [simp]: "bind_io (tr, Inl e) f = (tr, Inl e)"
  by (simp add: bind_io_def)

lemma bind_io_Inr: "bind_io (tr, Inr x) f = (tr @ fst (f x), snd (f x))"
  by (simp add: bind_io_def split: prod.splits)

lemma bind_io_result:
  "snd (bind_io m f) = Inr y \<longleftrightarrow> (\<exists>x. snd m = Inr x \<and> snd (f x) = Inr y)"
  by (cases m; cases "snd m") (auto simp: bind_io_def split: prod.splits)

lemma text_search_Inl:
  "lexical_search svc qry k = Inl e \<Longrightarrow> text_search svc qry k = ([LexicalSearch qry k], Inl e)"
  by (simp add: text_search_def call_service_def)

lemma text_search_Inr:
  "lexical_search svc qry k = Inr xs \<Longrightarrow>
     text_search svc qry k = ([LexicalSearch qry k], Inr (map (text_hit_of qry) xs))"
  by (simp add: text_search_def call_service_def bind_io_Inr return_io_def)

lemma vector_search_embed_Inl:
  "embed svc (embed_input qry) = Inl e \<Longrightarrow>
     vector_search svc qry k = ([Embed (embed_input qry)], Inl e)"
  by (simp add: vector_search_def call_service_def embed_input_def Let_def)

lemma vector_search_query_Inl:
  "embed svc (embed_input qry) = Inr v \<Longrightarrow> vector_query svc v k = Inl e \<Longrightarrow>
     vector_search svc qry k = ([Embed (embed_input qry), VectorSearch v k], Inl e)"
  by (simp add: vector_search_def call_service_def embed_input_def Let_def bind_io_Inr)

lemma vector_search_Inr:
  "embed svc (embed_input qry) = Inr v \<Longrightarrow> vector_query svc v k = Inr ys \<Longrightarrow>
     vector_search svc qry k =
       ([Embed (embed_input qry), VectorSearch v k],
        Inr (map (vector_hit_of (embed_input qry)) ys))"
  by (simp add: vector_search_def call_service_def embed_input_def Let_def bind_io_Inr return_io_def)

lemma text_search_result:
  "snd (text_search svc qry k) = Inr hs \<Longrightarrow> \<exists>xs. lexical_search svc qry k = Inr xs"
  by (cases "lexical_search svc qry k") (simp_all add: text_search_Inl text_search_Inr)

lemma vector_search_result:
  assumes "snd (vector_search svc qry k) = Inr hs"
  shows "\<exists>v ys. embed svc (embed_input qry) = Inr v \<and> vector_query svc v k = Inr ys"
proof (cases "embed svc (embed_input qry)")
  case (Inl e)
  then show ?thesis using assms by (simp add: vector_search_embed_Inl)
next
  case (Inr v)
  then show ?thesis
    using assms by (cases "vector_query svc v k") (simp_all add: vector_search_query_Inl)
qed

lemma search_unfold:
  "search svc qry page page_size =
     bind_io (text_search svc qry (search_k page page_size)) (\<lambda>text_search_hits.
     bind_io (vector_search svc qry (search_k page page_size)) (\<lambda>vector_search_hits.
     bind_io ([], aggregate_default (text_search_hits @ vector_search_hits)) (\<lambda>documents.
       bind_io (enrich svc
          (slice (((if page < 1 then 1 else page) - 1) * (if page_size < 1 then 10 else page_size))
                 (((if page < 1 then 1 else page) - 1) * (if page_size < 1 then 10 else page_size)
                    + (if page_size < 1 then 10 else page_size)) documents))
         (\<lambda>enriched.
            return_io \<lparr>resp_query = qry, resp_page = (if page < 1 then 1 else page),
                       resp_page_size = (if page_size < 1 then 10 else page_size),
                       total_results = int (length documents),
                       total_pages = (int (length documents) + (if page_size < 1 then 10 else page_size) - 1)
                                       div (if page_size < 1 then 10 else page_size),
                       results = enriched\<rparr>))))"
  by (simp add: search_def search_k_def Let_def)

lemma search_lexical_Inl:
  assumes "lexical_search svc qry (search_k page page_size) = Inl e"
  shows "search svc qry page page_size = ([LexicalSearch qry (search_k page page_size)], Inl e)"
  unfolding search_unfold by (simp add: text_search_Inl [OF assms])

lemma search_embed_Inl:
  assumes "lexical_search svc qry (search_k page page_size) = Inr xs"
    and "embed svc (embed_input qry) = Inl e"
  shows "search svc qry page page_size =
           ([LexicalSearch qry (search_k page page_size), Embed (embed_input qry)], Inl e)"
  unfolding search_unfold
  by (simp add: text_search_Inr [OF assms(1)] vector_search_embed_Inl [OF assms(2)] bind_io_Inr)

lemma search_vector_Inl:
  assumes "lexical_search svc qry (search_k page page_size) = Inr xs"
    and "embed svc (embed_input qry) = Inr v"
    and "vector_query svc v (search_k page page_size) = Inl e"
  shows "search svc qry page page_size =
           ([LexicalSearch qry (search_k page page_size), Embed (embed_input qry),
             VectorSearch v (search_k page page_size)], Inl e)"
  unfolding search_unfold
  by (simp add: text_search_Inr [OF assms(1)] vector_search_query_Inl [OF assms(2,3)] bind_io_Inr)

lemma search_result:
  assumes "snd (search svc qry page page_size) = Inr r"
  shows "\<exists>xs v ys. lexical_search svc qry (search_k page page_size) = Inr xs \<and>
           embed svc (embed_input qry) = Inr v \<and>
           vector_query svc v (search_k page page_size) = Inr ys"
proof -
  from assms obtain ths where t: "snd (text_search svc qry (search_k page page_size)) = Inr ths"
    unfolding search_unfold bind_io_result by blast
  from assms obtain vhs where v: "snd (vector_search svc qry (search_k page page_size)) = Inr vhs"
    unfolding search_unfold bind_io_result by blast
  from text_search_result [OF t] vector_search_result [OF v] show ?thesis by blast
qed

lemma enrich_total:
  assumes "\<forall>d. \<exists>m. get_document svc d = Inr m"
  shows "\<exists>out. enrich svc docs = (map (\<lambda>d. GetDocument (id_hit d)) docs, Inr out)"
proof (induction docs)
  case Nil
  show ?case by (simp add: return_io_def)
next
  case (Cons doc docs)
  from assms obtain m where m: "get_document svc (id_hit doc) = Inr m" by blast
  from Cons.IH obtain out where "enrich svc docs = (map (\<lambda>d. GetDocument (id_hit d)) docs, Inr out)"
    by blast
  then show ?case
    by (simp add: m call_service_def bind_io_Inr return_io_def)
qed

lemma search_success:
  assumes lx: "lexical_search svc qry (search_k page page_size) = Inr xs"
    and em: "embed svc (embed_input qry) = Inr v"
    and vq: "vector_query svc v (search_k page page_size) = Inr ys"
    and gd: "\<forall>d. \<exists>m. get_document svc d = Inr m"
  shows "\<exists>tr r. search svc qry page page_size =
           ([LexicalSearch qry (search_k page page_size), Embed (embed_input qry),
             VectorSearch v (search_k page page_size)] @ tr, Inr r) \<and> resp_query r = qry"
proof -
  obtain docs where docs:
    "aggregate_default (map (text_hit_of qry) xs @ map (vector_hit_of (embed_input qry)) ys) = Inr docs"
    unfolding aggregate_default_def using aggregate_total [of 60] by (metis zero_le_numeral)
  let ?pg = "slice (((if page < 1 then 1 else page) - 1) * (if page_size < 1 then 10 else page_size))
                 (((if page < 1 then 1 else page) - 1) * (if page_size < 1 then 10 else page_size)
                    + (if page_size < 1 then 10 else page_size)) docs"
  from enrich_total [OF gd, of ?pg] obtain out where
    out: "enrich svc ?pg = (map (\<lambda>d. GetDocument (id_hit d)) ?pg, Inr out)" by blast
  show ?thesis
    unfolding search_unfold
    by (simp add: text_search_Inr [OF lx] vector_search_Inr [OF em vq] bind_io_Inr docs out
          return_io_def)
qed

lemmas search_defs = search_def text_search_def vector_search_def call_service_def bind_io_def
  return_io_def recall_k_def TOKEN_LIMIT_def text_hit_of_def vector_hit_of_def
  item_text_or_empty_def svc_ok_def svc_lexical_down_def svc_vector_down_def doc_meta_def
  search_k_def embed_input_def

lemma snippet_some_text: "make_snippet latin1 ''some text'' ''text'' 400 = ''some text''"
  by code_simp

lemma snippet_other_text: "make_snippet latin1 ''other text'' [] 400 = ''other text''"
  by code_simp

lemma snippet_some_text_empty: "make_snippet latin1 ''some text'' [] 400 = ''some text''"
  by code_simp

lemma search_lexical_down:
  "search svc_lexical_down ''text'' 1 10 = ([LexicalSearch ''text'' 50], Inl (ServiceError ''lexical''))"
  by (simp add: search_defs)

lemma search_vector_down:
  "search svc_vector_down ''text'' 1 10 =
     ([LexicalSearch ''text'' 50, Embed ''text'', VectorSearch [1, 0] 50],
      Inl (ServiceError ''vector''))"
  by (simp add: search_defs)

lemma search_empty_query:
  "search svc_ok [] 1 10 =
     ([LexicalSearch [] 50, Embed [], VectorSearch [1, 0] 50, GetDocument ''a'', GetDocument ''b''],
      Inr \<lparr>resp_query = [], resp_page = 1, resp_page_size = 10, total_results = 2, total_pages = 1,
           results =
             [\<lparr>id_hit = ''a'', bm25 = Some 2, cosine = None, score = 1 / 61,
               meta = Some (doc_meta ''a''),
               passages = [\<lparr>chunk_id = ''c1'', text_psg = ''some text'', score_psg = 2,
                            retriever = Bm25\<rparr>]\<rparr>,
              \<lparr>id_hit = ''b'', bm25 = None, cosine = Some 1, score = 1 / 61,
               meta = Some (doc_meta ''b''),
               passages = [\<lparr>chunk_id = ''c2'', text_psg = ''other text'', score_psg = 1,
                            retriever = Vector\<rparr>]\<rparr>]\<rparr>)"
  by (simp add: search_def text_search_def vector_search_def call_service_def bind_io_def
        return_io_def recall_k_def TOKEN_LIMIT_def text_hit_of_def vector_hit_of_def
        item_text_or_empty_def svc_ok_def snippet_some_text_empty snippet_other_text
        agg_defs slice_def)

lemma enrich_page:
  assumes "\<forall>doc \<in> set docs. \<exists>m. get_document svc (id_hit doc) = Inr m"
  shows "\<exists>out. enrich svc docs = (map (\<lambda>d. GetDocument (id_hit d)) docs, Inr out) \<and>
           map id_hit out = map id_hit docs"
  using assms
proof (induction docs)
  case Nil
  show ?case by (simp add: return_io_def)
next
  case (Cons doc docs)
  from Cons.prems obtain m where m: "get_document svc (id_hit doc) = Inr m" by auto
  from Cons.IH Cons.prems obtain out where
    "enrich svc docs = (map (\<lambda>d. GetDocument (id_hit d)) docs, Inr out)"
    "map id_hit out = map id_hit docs" by auto
  then show ?case
    by (simp add: m call_service_def bind_io_Inr return_io_def)
qed

lemma enrich_Inl:
  "enrich svc docs = (tr, Inl e) \<Longrightarrow> tr \<noteq> [] \<and> call_error svc (last tr) = Some e"
proof (induction docs arbitrary: tr)
  case Nil
  then show ?case by (simp add: return_io_def)
next
  case (Cons doc docs)
  show ?case
  proof (cases "get_document svc (id_hit doc)")
    case (Inl e')
    then show ?thesis using Cons.prems by (auto simp: call_service_def)
  next
    case (Inr m)
    obtain tr' r' where e: "enrich svc docs = (tr', r')" by fastforce
    show ?thesis
    proof (cases r')
      case (Inl e')
      with Cons.prems e Inr have "tr = GetDocument (id_hit doc) # tr'" "e' = e"
        by (simp_all add: call_service_def bind_io_Inr)
      moreover from Cons.IH [of tr'] e Inl \<open>e' = e\<close>
      have "tr' \<noteq> [] \<and> call_error svc (last tr') = Some e" by simp
      ultimately show ?thesis by simp
    next
      case (Inr out)
      with Cons.prems e \<open>get_document svc (id_hit doc) = Inr m\<close> show ?thesis
        by (simp add: call_service_def bind_io_Inr return_io_def)
    qed
  qed
qed

lemma search_page_of:
  "search svc qry page page_size =
     bind_io (text_search svc qry (search_k page page_size)) (\<lambda>text_search_hits.
     bind_io (vector_search svc qry (search_k page page_size)) (\<lambda>vector_search_hits.
     bind_io ([], aggregate_default (text_search_hits @ vector_search_hits)) (\<lambda>documents.
       bind_io (enrich svc (page_of page page_size documents))
         (\<lambda>enriched.
            return_io \<lparr>resp_query = qry, resp_page = (if page < 1 then 1 else page),
                       resp_page_size = (if page_size < 1 then 10 else page_size),
                       total_results = int (length documents),
                       total_pages = (int (length documents) + (if page_size < 1 then 10 else page_size) - 1)
                                       div (if page_size < 1 then 10 else page_size),
                       results = enriched\<rparr>))))"
  unfolding search_unfold by (simp add: page_of_def Let_def)

lemma search_page_success:
  assumes lx: "lexical_search svc qry (search_k page page_size) = Inr xs"
    and em: "embed svc (embed_input qry) = Inr v"
    and vq: "vector_query svc v (search_k page page_size) = Inr ys"
    and ag: "aggregate_default (map (text_hit_of qry) xs @ map (vector_hit_of (embed_input qry)) ys)
               = Inr docs"
    and gd: "\<forall>doc \<in> set (page_of page page_size docs). \<exists>m. get_document svc (id_hit doc) = Inr m"
  shows "\<exists>r. search svc qry page page_size =
           ([LexicalSearch qry (search_k page page_size), Embed (embed_input qry),
             VectorSearch v (search_k page page_size)] @
            map (\<lambda>doc. GetDocument (id_hit doc)) (page_of page page_size docs), Inr r) \<and>
           resp_query r = qry \<and>
           map id_hit (results r) = map id_hit (page_of page page_size docs)"
proof -
  from enrich_page [OF gd] obtain out where
    out: "enrich svc (page_of page page_size docs) =
            (map (\<lambda>d. GetDocument (id_hit d)) (page_of page page_size docs), Inr out)"
      "map id_hit out = map id_hit (page_of page page_size docs)" by blast
  show ?thesis
    unfolding search_page_of
    by (simp add: text_search_Inr [OF lx] vector_search_Inr [OF em vq] bind_io_Inr ag out
          return_io_def)
qed

lemma search_error_origin:
  assumes "snd (search svc qry page page_size) = Inl e"
  shows "fst (search svc qry page page_size) \<noteq> [] \<and>
         call_error svc (last (fst (search svc qry page page_size))) = Some e"
proof (cases "lexical_search svc qry (search_k page page_size)")
  case (Inl e')
  from search_lexical_Inl [OF Inl] assms show ?thesis by (simp add: Inl)
next
  case lx: (Inr xs)
  show ?thesis
  proof (cases "embed svc (embed_input qry)")
    case (Inl e')
    from search_embed_Inl [OF lx Inl] assms show ?thesis by (simp add: Inl)
  next
    case em: (Inr v)
    show ?thesis
    proof (cases "vector_query svc v (search_k page page_size)")
      case (Inl e')
      from search_vector_Inl [OF lx em Inl] assms show ?thesis by (simp add: Inl)
    next
      case vq: (Inr ys)
      obtain docs where docs:
        "aggregate_default (map (text_hit_of qry) xs @ map (vector_hit_of (embed_input qry)) ys)
           = Inr docs"
        unfolding aggregate_default_def using aggregate_total [of 60] by (metis zero_le_numeral)
      obtain tr r where en: "enrich svc (page_of page page_size docs) = (tr, r)" by fastforce
      have s: "search svc qry page page_size =
          ([LexicalSearch qry (search_k page page_size), Embed (embed_input qry),
            VectorSearch v (search_k page page_size)] @ tr,
           case r of Inl e' \<Rightarrow> Inl e' | Inr out \<Rightarrow>
             Inr \<lparr>resp_query = qry, resp_page = (if page < 1 then 1 else page),
                  resp_page_size = (if page_size < 1 then 10 else page_size),
                  total_results = int (length docs),
                  total_pages = (int (length docs) + (if page_size < 1 then 10 else page_size) - 1)
                                  div (if page_size < 1 then 10 else page_size),
                  results = out\<rparr>)"
        unfolding search_page_of
        by (cases r)
           (simp_all add: text_search_Inr [OF lx] vector_search_Inr [OF em vq] bind_io_Inr docs en
              return_io_def)
      show ?thesis
      proof (cases r)
        case (Inl e')
        with assms s have "e' = e" by simp
        with enrich_Inl [of svc "page_of page page_size docs" tr e] en Inl
        have "tr \<noteq> [] \<and> call_error svc (last tr) = Some e" by simp
        then show ?thesis by (simp add: s)
      next
        case (Inr out)
        with assms s show ?thesis by simp
      qed
    qed
  qed
qed

lemma aggregate_ok_empty_query:
  "aggregate_default
     (map (text_hit_of [])
        [\<lparr>item_id = ''c1'', document_id = ''a'', item_text = Some ''some text'', search_score = 2\<rparr>] @
      map (vector_hit_of [])
        [\<lparr>item_id = ''c2'', document_id = ''b'', item_text = Some ''other text'', search_score = 1\<rparr>]) =
   Inr [\<lparr>id_hit = ''a'', bm25 = Some 2, cosine = None, score = 1 / 61, meta = None,
          passages = [\<lparr>chunk_id = ''c1'', text_psg = ''some text'', score_psg = 2,
                       retriever = Bm25\<rparr>]\<rparr>,
        \<lparr>id_hit = ''b'', bm25 = None, cosine = Some 1, score = 1 / 61, meta = None,
          passages = [\<lparr>chunk_id = ''c2'', text_psg = ''other text'', score_psg = 1,
                       retriever = Vector\<rparr>]\<rparr>]"
  by (simp add: text_hit_of_def vector_hit_of_def item_text_or_empty_def
        snippet_some_text_empty snippet_other_text agg_defs)

lemma page_of_first_of_two: "page_of 1 1 [x, y] = [x]"
  by (simp add: page_of_def slice_def)

section \<open>Lemmas about the heap model\<close>

lemma prefix_list_update:
  assumes "prefix xs ys" "length xs \<le> i"
  shows "prefix xs (ys[i := v])"
proof -
  from assms(1) obtain zs where "ys = xs @ zs" by (auto simp: prefix_def)
  then show ?thesis using assms(2) by (simp add: list_update_append)
qed

lemma prefix_snoc: "prefix xs ys \<Longrightarrow> prefix xs (ys @ [y])"
  by (simp add: prefix_def) auto

lemma inv_refl: "heap_inv H H []"
  by (simp add: heap_inv_def)

lemma inv_lengths: "heap_inv H0 H rs \<Longrightarrow> length (objs H0) \<le> length (objs H) \<and> length (lsts H0) \<le> length (lsts H)"
  by (auto simp: heap_inv_def dest: prefix_length_le)

lemma inv_alloc_list: "heap_inv H0 H rs \<Longrightarrow> heap_inv H0 (fst (alloc_list H ps)) rs"
  by (auto simp: heap_inv_def alloc_list_def fresh_def prefix_snoc list_all_iff)

lemma inv_alloc_obj:
  assumes "heap_inv H0 H rs" "length (lsts H0) \<le> o_passages ob" "o_passages ob < length (lsts H)"
    "o_meta ob = None"
  shows "heap_inv H0 (fst (alloc_obj H ob)) (rs @ [snd (alloc_obj H ob)])"
  using assms inv_lengths [OF assms(1)]
  by (auto simp: heap_inv_def alloc_obj_def fresh_def prefix_snoc list_all_iff nth_append)

lemma inv_update_obj:
  assumes "heap_inv H0 H rs" "m \<in> set rs"
    "o_passages (f (objs H ! m)) = o_passages (objs H ! m) \<or>
     (length (lsts H0) \<le> o_passages (f (objs H ! m)) \<and> o_passages (f (objs H ! m)) < length (lsts H))"
    "o_meta (f (objs H ! m)) = o_meta (objs H ! m)"
  shows "heap_inv H0 (update_obj H m f) rs"
proof -
  from assms(1,2) have m: "fresh H0 H m" by (auto simp: heap_inv_def list_all_iff)
  have "fresh H0 (update_obj H m f) r" if "r \<in> set rs" for r
  proof -
    from assms(1) that have r: "fresh H0 H r" by (auto simp: heap_inv_def list_all_iff)
    show ?thesis
      using r m assms(3,4) by (cases "r = m") (auto simp: fresh_def update_obj_def)
  qed
  moreover have "prefix (objs H0) (objs (update_obj H m f))"
    using assms(1) m by (simp add: heap_inv_def update_obj_def fresh_def prefix_list_update)
  moreover have "prefix (lsts H0) (lsts (update_obj H m f))"
    using assms(1) by (simp add: heap_inv_def update_obj_def)
  ultimately show ?thesis by (simp add: heap_inv_def list_all_iff)
qed

lemma inv_extend:
  assumes "heap_inv H0 H rs" "length (lsts H0) \<le> l"
  shows "heap_inv H0 (extend H l ps) rs"
  using assms by (auto simp: heap_inv_def extend_def fresh_def prefix_list_update list_all_iff)

lemma inv_mono: "heap_inv H0 H rs \<Longrightarrow> set rs' \<subseteq> set rs \<Longrightarrow> heap_inv H0 H rs'"
  by (auto simp: heap_inv_def list_all_iff)

lemma update_absent: "map_of al k = None \<Longrightarrow> AList.update k v al = al @ [(k, v)]"
  by (induction al) (auto split: if_splits)

lemma map_of_refs: "map_of al k = Some r \<Longrightarrow> r \<in> set (map snd al)"
  by (auto dest: map_of_SomeD intro: rev_image_eqI)

lemma ensure_heap_inv:
  assumes "heap_inv H0 H (map snd merged)" "ensure_heap H merged doc_id = (H1, merged1, m)"
  shows "heap_inv H0 H1 (map snd merged1)" "m \<in> set (map snd merged1)"
proof -
  show "heap_inv H0 H1 (map snd merged1)"
  proof (cases "map_of merged doc_id")
    case (Some r)
    then show ?thesis using assms by (simp add: ensure_heap_def)
  next
    case None
    let ?A = "alloc_list H []"
    let ?ob = "\<lparr>o_id = doc_id, o_bm25 = None, o_cosine = None, o_score = 0,
                 o_meta = None, o_passages = snd ?A\<rparr>"
    have a: "heap_inv H0 (fst ?A) (map snd merged)" by (rule inv_alloc_list [OF assms(1)])
    have "heap_inv H0 (fst (alloc_obj (fst ?A) ?ob)) (map snd merged @ [snd (alloc_obj (fst ?A) ?ob)])"
      using inv_lengths [OF assms(1)]
      by (intro inv_alloc_obj [OF a]) (simp_all add: alloc_list_def)
    moreover have "H1 = fst (alloc_obj (fst ?A) ?ob)"
      "merged1 = merged @ [(doc_id, snd (alloc_obj (fst ?A) ?ob))]"
      using assms(2) None by (auto simp: ensure_heap_def update_absent case_prod_beta)
    ultimately show ?thesis by simp
  qed
  show "m \<in> set (map snd merged1)"
  proof (cases "map_of merged doc_id")
    case (Some r)
    then show ?thesis using assms(2) map_of_refs [OF Some] by (simp add: ensure_heap_def)
  next
    case None
    then show ?thesis
      using assms(2) by (auto simp: ensure_heap_def update_absent split: prod.splits)
  qed
qed

lemma merge_hit_heap_inv:
  assumes "heap_inv H0 H rs" "m \<in> set rs"
  shows "heap_inv H0 (merge_hit_heap H m h) rs"
proof -
  have i2: "heap_inv H0 (set_best_bm25 H m h) rs"
    unfolding set_best_bm25_def
    by (cases "o_bm25 (objs H ! h)") (simp_all add: assms(1) inv_update_obj [OF assms])
  let ?H2 = "set_best_bm25 H m h"
  have i3: "heap_inv H0 (set_best_cosine ?H2 m h) rs"
    unfolding set_best_cosine_def
    by (cases "o_cosine (objs ?H2 ! h)") (simp_all add: i2 inv_update_obj [OF i2 assms(2)])
  let ?H3 = "set_best_cosine ?H2 m h"
  have "fresh H0 ?H3 m" using i3 assms(2) by (auto simp: heap_inv_def list_all_iff)
  then have l: "length (lsts H0) \<le> o_passages (objs ?H3 ! m)" by (simp add: fresh_def)
  show ?thesis
    unfolding merge_hit_heap_def extend_passages_def using i3 l by (simp add: inv_extend)
qed

lemma merge_step_heap_inv:
  assumes "heap_inv H0 H (map snd merged)" "merge_step_heap (H, merged) h = (H', merged')"
  shows "heap_inv H0 H' (map snd merged')"
proof -
  obtain H1 merged1 m where e: "ensure_heap H merged (o_id (objs H ! h)) = (H1, merged1, m)"
    by (metis prod_cases3)
  note i1 = ensure_heap_inv [OF assms(1) e]
  have "H' = merge_hit_heap H1 m h" "merged' = merged1"
    using assms(2) e by (simp_all add: merge_step_heap_def)
  then show ?thesis using merge_hit_heap_inv [OF i1] by simp
qed

lemma merge_loop_heap_inv:
  assumes "heap_inv H0 H (map snd merged)" "merge_loop_heap (H, merged) hs = (H', merged')"
  shows "heap_inv H0 H' (map snd merged')"
  using assms
proof (induction hs arbitrary: H merged)
  case Nil
  then show ?case by simp
next
  case (Cons h hs)
  obtain H1 merged1 where s: "merge_step_heap (H, merged) h = (H1, merged1)" by fastforce
  from merge_step_heap_inv [OF Cons.prems(1) s] Cons.IH [of H1 merged1] Cons.prems(2) s
  show ?case by simp
qed

lemma finish_doc_heap_inv:
  assumes "heap_inv H0 H rs" "snd item \<in> set rs"
    "finish_doc_heap w_text w_vector rrf_k mp tr vr H item = (H', res)"
  shows "heap_inv H0 H' rs"
proof (cases "fused_score w_text w_vector rrf_k tr vr (fst item)")
  case (Inl e)
  then show ?thesis using assms by (simp add: finish_doc_heap_def)
next
  case (Inr s)
  define H1 where "H1 = update_obj H (snd item) (\<lambda>ob. ob\<lparr>o_score := s\<rparr>)"
  define ps where "ps = top_passages mp (lsts H1 ! o_passages (objs H1 ! snd item))"
  have i1: "heap_inv H0 H1 rs" unfolding H1_def by (rule inv_update_obj [OF assms(1,2)]) simp_all
  have i2: "heap_inv H0 (fst (alloc_list H1 ps)) rs" by (rule inv_alloc_list [OF i1])
  have "heap_inv H0 (update_obj (fst (alloc_list H1 ps)) (snd item)
                  (\<lambda>ob. ob\<lparr>o_passages := snd (alloc_list H1 ps)\<rparr>)) rs"
    using inv_lengths [OF i1]
    by (intro inv_update_obj [OF i2 assms(2)]) (simp_all add: alloc_list_def)
  then show ?thesis
    using assms(3) Inr by (simp add: finish_doc_heap_def Let_def H1_def ps_def split: prod.splits)
qed

lemma score_loop_heap_inv:
  assumes "heap_inv H0 H rs" "set (map snd items) \<subseteq> set rs"
    "score_loop_heap (finish_doc_heap w_text w_vector rrf_k mp tr vr) H items = (H', res)"
  shows "heap_inv H0 H' rs"
  using assms
proof (induction items arbitrary: H)
  case Nil
  then show ?case by simp
next
  case (Cons item items)
  obtain H1 r1 where f: "finish_doc_heap w_text w_vector rrf_k mp tr vr H item = (H1, r1)"
    by fastforce
  have i1: "heap_inv H0 H1 rs"
    by (rule finish_doc_heap_inv [OF Cons.prems(1) _ f]) (use Cons.prems(2) in auto)
  show ?case
  proof (cases r1)
    case (Inl e)
    then show ?thesis using Cons.prems(3) f i1 by simp
  next
    case (Inr u)
    then show ?thesis
      using Cons.prems(2,3) f Cons.IH [OF i1] by simp
  qed
qed

lemma aggregate_heap_inv:
  assumes "aggregate_heap H hs w_text w_vector rrf_k mp = (H', res)"
  shows "prefix (objs H) (objs H')" "prefix (lsts H) (lsts H')"
    "\<forall>out. res = Inr out \<longrightarrow> list_all (fresh H H') out"
proof -
  obtain H1 merged where m: "merge_loop_heap (H, []) hs = (H1, merged)" by fastforce
  have i1: "heap_inv H H1 (map snd merged)"
    by (rule merge_loop_heap_inv [OF _ m]) (simp add: inv_refl)
  obtain H2 r2 where s: "score_loop_heap
      (finish_doc_heap w_text w_vector rrf_k mp (text_rank (map (deref H) hs))
         (vector_rank (map (deref H) hs))) H1 merged = (H2, r2)" by fastforce
  have i2: "heap_inv H H2 (map snd merged)"
    by (rule score_loop_heap_inv [OF i1 _ s]) simp
  have H': "H' = H2"
    using assms m s by (cases r2) (simp_all add: aggregate_heap_def Let_def)
  show "prefix (objs H) (objs H')" "prefix (lsts H) (lsts H')"
    using i2 H' by (simp_all add: heap_inv_def)
  show "\<forall>out. res = Inr out \<longrightarrow> list_all (fresh H H') out"
  proof (intro allI impI)
    fix out assume "res = Inr out"
    then have "set out = set (map snd merged)"
      using assms m s by (cases r2) (force simp: aggregate_heap_def Let_def set_sorted_desc)+
    then show "list_all (fresh H H') out"
      using i2 H' by (simp add: heap_inv_def list_all_iff)
  qed
qed

lemma prefix_nth: "prefix xs ys \<Longrightarrow> i < length xs \<Longrightarrow> ys ! i = xs ! i"
  by (auto simp: prefix_def nth_append)

lemma deref_prefix:
  assumes "prefix (objs H0) (objs H)" "prefix (lsts H0) (lsts H)"
    "r < length (objs H0)" "o_passages (objs H0 ! r) < length (lsts H0)"
  shows "deref H r = deref H0 r"
  using assms by (simp add: deref_def prefix_nth)

lemma deref_update_obj_other: "r \<noteq> m \<Longrightarrow> deref (update_obj H m f) r = deref H r"
  by (simp add: deref_def update_obj_def)

lemma addr_update_obj_other: "r \<noteq> m \<Longrightarrow> addr (update_obj H m f) r = addr H r"
  by (simp add: addr_def update_obj_def)

lemma lsts_update_obj [simp]: "lsts (update_obj H m f) = lsts H"
  by (simp add: update_obj_def)

lemma length_objs_update_obj [simp]: "length (objs (update_obj H m f)) = length (objs H)"
  by (simp add: update_obj_def)

lemma obj_update_obj_same: "m < length (objs H) \<Longrightarrow> objs (update_obj H m f) ! m = f (objs H ! m)"
  by (simp add: update_obj_def)

lemma obj_update_obj_other: "r \<noteq> m \<Longrightarrow> objs (update_obj H m f) ! r = objs H ! r"
  by (simp add: update_obj_def)

lemma objs_extend [simp]: "objs (extend H l ps) = objs H"
  by (simp add: extend_def)

lemma length_lsts_extend [simp]: "length (lsts (extend H l ps)) = length (lsts H)"
  by (simp add: extend_def)

lemma addr_extend [simp]: "addr (extend H l ps) r = addr H r"
  by (simp add: addr_def)

lemma deref_extend_other: "addr H r \<noteq> l \<Longrightarrow> deref (extend H l ps) r = deref H r"
  by (simp add: deref_def extend_def addr_def)

lemma deref_extend_same:
  "addr H r = l \<Longrightarrow> l < length (lsts H) \<Longrightarrow>
     deref (extend H l ps) r = (deref H r)\<lparr>passages := passages (deref H r) @ ps\<rparr>"
  by (simp add: deref_def extend_def addr_def)

lemma deref_alloc_list:
  "addr H r < length (lsts H) \<Longrightarrow> deref (fst (alloc_list H ps)) r = deref H r"
  by (simp add: deref_def alloc_list_def addr_def nth_append)

lemma addr_alloc_list [simp]: "addr (fst (alloc_list H ps)) r = addr H r"
  by (simp add: alloc_list_def addr_def)

lemma deref_alloc_obj_old:
  "r < length (objs H) \<Longrightarrow> deref (fst (alloc_obj H ob)) r = deref H r"
  by (simp add: deref_def alloc_obj_def nth_append)

lemma addr_alloc_obj_old: "r < length (objs H) \<Longrightarrow> addr (fst (alloc_obj H ob)) r = addr H r"
  by (simp add: alloc_obj_def addr_def nth_append)

lemma deref_set_best_bm25_other: "r \<noteq> m \<Longrightarrow> deref (set_best_bm25 H m h) r = deref H r"
  by (simp add: set_best_bm25_def deref_update_obj_other split: option.splits)

lemma deref_set_best_cosine_other: "r \<noteq> m \<Longrightarrow> deref (set_best_cosine H m h) r = deref H r"
  by (simp add: set_best_cosine_def deref_update_obj_other split: option.splits)

lemma addr_set_best_bm25 [simp]: "addr (set_best_bm25 H m h) r = addr H r"
  by (cases "r = m"; cases "m < length (objs H)")
     (auto simp: set_best_bm25_def addr_def update_obj_def list_update_beyond split: option.splits)

lemma addr_set_best_cosine [simp]: "addr (set_best_cosine H m h) r = addr H r"
  by (cases "r = m"; cases "m < length (objs H)")
     (auto simp: set_best_cosine_def addr_def update_obj_def list_update_beyond split: option.splits)

lemma lsts_set_best_bm25 [simp]: "lsts (set_best_bm25 H m h) = lsts H"
  by (simp add: set_best_bm25_def split: option.splits)

lemma lsts_set_best_cosine [simp]: "lsts (set_best_cosine H m h) = lsts H"
  by (simp add: set_best_cosine_def split: option.splits)

lemma length_objs_set_best_bm25 [simp]: "length (objs (set_best_bm25 H m h)) = length (objs H)"
  by (simp add: set_best_bm25_def split: option.splits)

lemma length_objs_set_best_cosine [simp]: "length (objs (set_best_cosine H m h)) = length (objs H)"
  by (simp add: set_best_cosine_def split: option.splits)

lemma deref_set_best_bm25_same:
  assumes "m < length (objs H)" "h \<noteq> m"
  shows "deref (set_best_bm25 H m h) m =
           (case bm25 (deref H h) of
              None \<Rightarrow> deref H m
            | Some x \<Rightarrow> (deref H m)\<lparr>bm25 := Some (max_neg_inf (or_neg_inf (bm25 (deref H m))) x)\<rparr>)"
  using assms
  by (auto simp: set_best_bm25_def deref_def update_obj_def split: option.splits)

lemma deref_set_best_cosine_same:
  assumes "m < length (objs H)" "h \<noteq> m"
  shows "deref (set_best_cosine H m h) m =
           (case cosine (deref H h) of
              None \<Rightarrow> deref H m
            | Some x \<Rightarrow> (deref H m)\<lparr>cosine := Some (max_neg_inf (or_neg_inf (cosine (deref H m))) x)\<rparr>)"
  using assms
  by (auto simp: set_best_cosine_def deref_def update_obj_def split: option.splits)

lemma deref_extend_passages_other:
  "addr H r \<noteq> addr H m \<Longrightarrow> deref (extend_passages H m h) r = deref H r"
  by (simp add: extend_passages_def deref_extend_other addr_def)

lemma deref_extend_passages_same:
  assumes "addr H m < length (lsts H)"
  shows "deref (extend_passages H m h) m =
           (if passages (deref H h) \<noteq> []
            then (deref H m)\<lparr>passages := passages (deref H m) @ passages (deref H h)\<rparr>
            else deref H m)"
  using assms deref_extend_same [of H m "addr H m"]
  by (simp add: extend_passages_def addr_def) (simp add: deref_def)

lemma addr_extend_passages [simp]: "addr (extend_passages H m h) r = addr H r"
  by (simp add: extend_passages_def)

lemma deref_merge_hit_heap_other:
  assumes "r \<noteq> m" "addr H r \<noteq> addr H m"
  shows "deref (merge_hit_heap H m h) r = deref H r"
  using assms
  by (simp add: merge_hit_heap_def deref_extend_passages_other deref_set_best_cosine_other
        deref_set_best_bm25_other)

lemma deref_merge_hit_heap_same:
  assumes "m < length (objs H)" "addr H m < length (lsts H)" "h \<noteq> m" "addr H h \<noteq> addr H m"
  shows "deref (merge_hit_heap H m h) m = merge_hit (deref H m) (deref H h)"
proof -
  let ?H2 = "set_best_bm25 H m h"
  let ?H3 = "set_best_cosine ?H2 m h"
  have h2: "deref ?H2 h = deref H h" using assms(3) by (simp add: deref_set_best_bm25_other)
  have h3: "deref ?H3 h = deref H h" using assms(3) h2 by (simp add: deref_set_best_cosine_other)
  have m3: "deref ?H3 m =
      (case cosine (deref H h) of
         None \<Rightarrow> deref ?H2 m
       | Some x \<Rightarrow> (deref ?H2 m)\<lparr>cosine := Some (max_neg_inf (or_neg_inf (cosine (deref ?H2 m))) x)\<rparr>)"
    using deref_set_best_cosine_same [of m ?H2 h] assms(1,3) h2 by simp
  have "deref (merge_hit_heap H m h) m =
      (if passages (deref H h) \<noteq> []
       then (deref ?H3 m)\<lparr>passages := passages (deref ?H3 m) @ passages (deref H h)\<rparr>
       else deref ?H3 m)"
    unfolding merge_hit_heap_def
    using deref_extend_passages_same [of ?H3 m h] assms(2) h3 by simp
  then show ?thesis
    using m3 deref_set_best_bm25_same [OF assms(1,3)]
    by (simp add: merge_hit_def Let_def split: option.splits)
qed

lemma addr_merge_hit_heap [simp]: "addr (merge_hit_heap H m h) r = addr H r"
  by (simp add: merge_hit_heap_def)

lemma local_update:
  assumes "map_of al k = Some m" "distinct (map snd al)" "g m = v"
    "\<forall>r \<in> set (map snd al). r \<noteq> m \<longrightarrow> g r = f r"
  shows "map (\<lambda>item. (fst item, g (snd item))) al =
         AList.update k v (map (\<lambda>item. (fst item, f (snd item))) al)"
  using assms
proof (induction al)
  case Nil
  then show ?case by simp
next
  case (Cons a al)
  show ?case
  proof (cases "fst a = k")
    case True
    then have m: "snd a = m" using Cons.prems(1) by (cases a) simp
    have "\<forall>x \<in> set al. g (snd x) = f (snd x)"
    proof
      fix x assume "x \<in> set al"
      then have x: "snd x \<in> set (map snd al)" by simp
      have "snd a \<notin> set (map snd al)" using Cons.prems(2) by (simp del: set_map)
      with x have "snd x \<noteq> m" unfolding m by blast
      moreover have "snd x \<in> set (map snd (a # al))" using x by simp
      ultimately show "g (snd x) = f (snd x)" using Cons.prems(4) by blast
    qed
    then have "map (\<lambda>item. (fst item, g (snd item))) al = map (\<lambda>item. (fst item, f (snd item))) al"
      by simp
    then show ?thesis using True m Cons.prems(3) by simp
  next
    case False
    then have t: "map_of al k = Some m" using Cons.prems(1) by (cases a) simp
    then have "m \<in> set (map snd al)" by (rule map_of_refs)
    then have "snd a \<noteq> m" using Cons.prems(2) by auto
    then have "g (snd a) = f (snd a)" using Cons.prems(4) by simp
    moreover have "map (\<lambda>item. (fst item, g (snd item))) al =
         AList.update k v (map (\<lambda>item. (fst item, f (snd item))) al)"
      using Cons.IH [OF t] Cons.prems(2,3,4) by simp
    ultimately show ?thesis using False by simp
  qed
qed

lemma map_of_abs_merged: "map_of (abs_merged H merged) k = map_option (deref H) (map_of merged k)"
  by (induction merged) (auto simp: abs_merged_def)

lemma abs_merged_cong:
  "(\<And>r. r \<in> set (map snd merged) \<Longrightarrow> deref H' r = deref H r) \<Longrightarrow>
     abs_merged H' merged = abs_merged H merged"
  by (simp add: abs_merged_def)

lemma sep_fresh: "sep H0 H rs \<Longrightarrow> r \<in> set rs \<Longrightarrow> fresh H0 H r"
  by (simp add: sep_def heap_inv_def list_all_iff)

lemma sep_addr_neq:
  assumes "sep H0 H rs" "r \<in> set rs" "r' \<in> set rs" "r \<noteq> r'"
  shows "addr H r \<noteq> addr H r'"
  using assms by (auto simp: sep_def distinct_map dest: inj_onD)

lemma sep_heap_inv: "sep H0 H rs \<Longrightarrow> heap_inv H0 H rs"
  by (simp add: sep_def)

lemma old_deref:
  assumes "heap_inv H0 H rs" "h < length (objs H0)" "addr H0 h < length (lsts H0)"
  shows "deref H h = deref H0 h" "addr H h = addr H0 h"
  using assms by (auto simp: heap_inv_def addr_def deref_prefix prefix_nth)

lemma ensure_heap_sim:
  assumes s: "sep H0 H (map snd merged)" and e: "ensure_heap H merged k = (H1, merged1, m)"
  shows "sep H0 H1 (map snd merged1)" "map_of merged1 k = Some m"
    "ensure (abs_merged H merged) k = (abs_merged H1 merged1, deref H1 m)"
proof -
  have goal: "sep H0 H1 (map snd merged1) \<and> map_of merged1 k = Some m \<and>
        ensure (abs_merged H merged) k = (abs_merged H1 merged1, deref H1 m)"
  proof (cases "map_of merged k")
    case (Some r)
    then have "H1 = H" "merged1 = merged" "m = r" using e by (simp_all add: ensure_heap_def)
    then show ?thesis using s Some by (simp add: ensure_def map_of_abs_merged)
  next
    case None
    let ?A = "fst (alloc_list H [])"
    let ?l = "length (lsts H)"
    let ?ob = "\<lparr>o_id = k, o_bm25 = None, o_cosine = None, o_score = 0,
                 o_meta = None, o_passages = ?l\<rparr>"
    have H1: "H1 = fst (alloc_obj ?A ?ob)" and m: "m = length (objs H)"
      and merged1: "merged1 = merged @ [(k, m)]"
      using e None by (auto simp: ensure_heap_def update_absent alloc_list_def alloc_obj_def)
    have old: "deref H1 r = deref H r \<and> addr H1 r = addr H r \<and> r < m \<and> addr H r < ?l"
      if "r \<in> set (map snd merged)" for r
    proof -
      from sep_fresh [OF s that] have r: "r < length (objs H)" "addr H r < length (lsts H)"
        by (simp_all add: fresh_def addr_def)
      have "deref ?A r = deref H r" using r(2) by (rule deref_alloc_list)
      moreover have "deref H1 r = deref ?A r"
        unfolding H1 using r(1) by (intro deref_alloc_obj_old) (simp add: alloc_list_def)
      moreover have "addr H1 r = addr H r"
        unfolding H1 using r(1) addr_alloc_obj_old [of r ?A ?ob] by (simp add: alloc_list_def addr_def)
      ultimately show ?thesis using r m by simp
    qed
    have new: "deref H1 m = new_hit k" "addr H1 m = ?l"
      unfolding H1 m by (simp_all add: deref_def addr_def alloc_obj_def alloc_list_def new_hit_def nth_append)
    have inv1: "heap_inv H0 H1 (map snd merged1)"
      by (rule ensure_heap_inv(1) [OF sep_heap_inv [OF s] e])
    have lt: "r < m \<and> addr H r < ?l" if "r \<in> set (map snd merged)" for r
      using old [OF that] by simp
    have m_notin: "m \<notin> set (map snd merged)"
    proof
      assume "m \<in> set (map snd merged)"
      from lt [OF this] show False by simp
    qed
    have l_notin: "?l \<notin> set (map (addr H) (map snd merged))"
    proof
      assume "?l \<in> set (map (addr H) (map snd merged))"
      then have "?l \<in> addr H ` set (map snd merged)" by (simp only: set_map)
      then show False
      proof (rule imageE)
        fix r assume r: "?l = addr H r" "r \<in> set (map snd merged)"
        from lt [OF r(2)] r(1) show False by simp
      qed
    qed
    have d1: "distinct (map snd merged1)"
      using s m_notin by (simp add: sep_def merged1 del: set_map)
    have eqm: "map (addr H1) (map snd merged) = map (addr H) (map snd merged)"
      using old by simp
    have dm: "distinct (map (addr H) (map snd merged))"
      using s by (simp only: sep_def)
    have "map (addr H1) (map snd merged1) = map (addr H) (map snd merged) @ [?l]"
      unfolding merged1 by (simp add: eqm new(2) del: map_map)
    then have d2: "distinct (map (addr H1) (map snd merged1))"
      using dm l_notin by (simp del: set_map map_map)
    have a: "abs_merged H1 merged1 = abs_merged H merged @ [(k, new_hit k)]"
      using abs_merged_cong [of merged H1 H] old new(1)
      unfolding merged1 by (simp add: abs_merged_def)
    have "map_of (abs_merged H merged) k = None" using None by (simp add: map_of_abs_merged)
    then have "ensure (abs_merged H merged) k = (abs_merged H merged @ [(k, new_hit k)], new_hit k)"
      by (simp add: ensure_def update_absent)
    moreover have "map_of merged1 k = Some m"
      unfolding merged1 using None by (simp add: map_add_def map_of_append)
    ultimately show ?thesis using inv1 d1 d2 a new(1) by (simp add: sep_def)
  qed
  from goal show "sep H0 H1 (map snd merged1)" "map_of merged1 k = Some m"
    "ensure (abs_merged H merged) k = (abs_merged H1 merged1, deref H1 m)" by simp_all
qed

lemma merge_step_heap_sim:
  assumes s: "sep H0 H (map snd merged)"
    and h: "h < length (objs H0)" "addr H0 h < length (lsts H0)"
    and st: "merge_step_heap (H, merged) h = (H', merged')"
  shows "sep H0 H' (map snd merged')"
    "abs_merged H' merged' = merge_step (abs_merged H merged) (deref H0 h)"
proof -
  let ?k = "id_hit (deref H0 h)"
  have hk: "o_id (objs H ! h) = ?k"
    using old_deref(1) [OF sep_heap_inv [OF s] h] by (simp add: deref_def)
  obtain H1 merged1 m where e: "ensure_heap H merged ?k = (H1, merged1, m)"
    by (metis prod_cases3)
  note e1 = ensure_heap_sim [OF s e]
  have H': "H' = merge_hit_heap H1 m h" and merged': "merged' = merged1"
    using st e hk by (simp_all add: merge_step_heap_def)
  have mref: "m \<in> set (map snd merged1)" by (rule map_of_refs [OF e1(2)])
  have fm: "fresh H0 H1 m" by (rule sep_fresh [OF e1(1) mref])
  have oh: "deref H1 h = deref H0 h" "addr H1 h = addr H0 h"
    using old_deref [OF sep_heap_inv [OF e1(1)] h] by simp_all
  have hm: "h \<noteq> m" "addr H1 h \<noteq> addr H1 m"
    using fm h oh(2) by (auto simp: fresh_def addr_def)
  have same: "deref H' m = merge_hit (deref H1 m) (deref H0 h)"
    unfolding H' using deref_merge_hit_heap_same [of m H1 h] fm hm oh(1)
    by (simp add: fresh_def addr_def)
  have other: "\<forall>r \<in> set (map snd merged1). r \<noteq> m \<longrightarrow> deref H' r = deref H1 r"
  proof (intro ballI impI)
    fix r assume r: "r \<in> set (map snd merged1)" "r \<noteq> m"
    from sep_addr_neq [OF e1(1) r(1) mref r(2)] r(2)
    show "deref H' r = deref H1 r" unfolding H' by (rule deref_merge_hit_heap_other [rotated])
  qed
  have d: "distinct (map snd merged1)" using e1(1) by (simp add: sep_def)
  have "abs_merged H' merged1 =
        AList.update ?k (merge_hit (deref H1 m) (deref H0 h)) (abs_merged H1 merged1)"
    unfolding abs_merged_def by (rule local_update [OF e1(2) d same other])
  then show "abs_merged H' merged' = merge_step (abs_merged H merged) (deref H0 h)"
    using e1(3) merged' by (simp add: merge_step_def)
  have "heap_inv H0 H' (map snd merged1)"
    unfolding H' by (rule merge_hit_heap_inv [OF sep_heap_inv [OF e1(1)] mref])
  moreover have eq: "map (addr H') (map snd merged1) = map (addr H1) (map snd merged1)"
    unfolding H' by simp
  moreover have "distinct (map (addr H1) (map snd merged1))"
    using e1(1) by (simp only: sep_def)
  then have "distinct (map (addr H') (map snd merged1))"
    by (simp only: eq)
  ultimately show "sep H0 H' (map snd merged')"
    unfolding sep_def merged' using d by (intro conjI)
qed

lemma merge_loop_heap_sim:
  assumes "sep H0 H (map snd merged)" "valid_refs H0 hs"
    "merge_loop_heap (H, merged) hs = (H', merged')"
  shows "sep H0 H' (map snd merged') \<and>
         abs_merged H' merged' = merge_loop (abs_merged H merged) (map (deref H0) hs)"
  using assms
proof (induction hs arbitrary: H merged)
  case Nil
  then show ?case by simp
next
  case (Cons h hs)
  obtain H1 merged1 where st: "merge_step_heap (H, merged) h = (H1, merged1)" by fastforce
  have h: "h < length (objs H0)" "addr H0 h < length (lsts H0)"
    using Cons.prems(2) by (simp_all add: valid_refs_def addr_def)
  note s1 = merge_step_heap_sim [OF Cons.prems(1) h st]
  have "valid_refs H0 hs" using Cons.prems(2) by (simp add: valid_refs_def)
  from Cons.IH [OF s1(1) this] Cons.prems(3) st s1(2) show ?case by simp
qed

lemma finish_doc_heap_Inr:
  "fused_score w_text w_vector rrf_k tr vr (fst item) = Inr s \<Longrightarrow>
     finish_doc_heap w_text w_vector rrf_k mp tr vr H item = (finish_obj H (snd item) s mp, Inr ())"
  by (simp add: finish_doc_heap_def finish_obj_def Let_def alloc_list_def)

lemma finish_doc_heap_Inl:
  "fused_score w_text w_vector rrf_k tr vr (fst item) = Inl e \<Longrightarrow>
     finish_doc_heap w_text w_vector rrf_k mp tr vr H item = (H, Inl e)"
  by (simp add: finish_doc_heap_def)

lemma deref_finish_obj_same:
  assumes "m < length (objs H)" "addr H m < length (lsts H)"
  shows "deref (finish_obj H m s mp) m =
           (deref H m)\<lparr>score := s, passages := top_passages mp (passages (deref H m))\<rparr>"
  using assms
  by (simp add: finish_obj_def deref_def update_obj_def alloc_list_def addr_def nth_append)

lemma deref_finish_obj_other:
  assumes "r \<noteq> m" "addr H r < length (lsts H)"
  shows "deref (finish_obj H m s mp) r = deref H r"
  using assms
  by (simp add: finish_obj_def deref_def update_obj_def alloc_list_def addr_def nth_append)

lemma addr_finish_obj_other: "r \<noteq> m \<Longrightarrow> addr (finish_obj H m s mp) r = addr H r"
  by (simp add: finish_obj_def update_obj_def alloc_list_def addr_def)

lemma addr_finish_obj_same: "m < length (objs H) \<Longrightarrow> addr (finish_obj H m s mp) m = length (lsts H)"
  by (simp add: finish_obj_def update_obj_def alloc_list_def addr_def)

lemma distinct_map_update_fresh:
  assumes "distinct (map f rs)" "\<forall>r \<in> set rs. r \<noteq> m \<longrightarrow> g r = f r" "\<forall>r \<in> set rs. g m \<noteq> f r"
    "distinct rs"
  shows "distinct (map g rs)"
  using assms
proof (induction rs)
  case Nil
  then show ?case by simp
next
  case (Cons a rs)
  have IH: "distinct (map g rs)" using Cons by simp
  have "g a \<notin> g ` set rs"
  proof
    assume "g a \<in> g ` set rs"
    then obtain b where b: "b \<in> set rs" "g a = g b" by (elim imageE)
    have ab: "a \<noteq> b" using Cons.prems(4) b(1) by auto
    have fa: "f a \<noteq> f b" using Cons.prems(1) b(1) by auto
    show False
    proof (cases "a = m")
      case True
      then have "b \<noteq> m" using ab by simp
      then have "g b = f b" using Cons.prems(2) b(1) by simp
      then show False using Cons.prems(3) True b by auto
    next
      case False
      then have ga: "g a = f a" using Cons.prems(2) by simp
      show False
      proof (cases "b = m")
        case True
        then show False using Cons.prems(3) ga b(2) by auto
      next
        case False
        then have "g b = f b" using Cons.prems(2) b(1) by simp
        then show False using ga fa b(2) by simp
      qed
    qed
  qed
  then show ?case using IH by simp
qed

lemma finish_obj_sep:
  assumes s: "sep H0 H rs" and m: "m \<in> set rs"
    and f: "fused_score w_text w_vector rrf_k tr vr k = Inr sc"
  shows "sep H0 (finish_obj H m sc mp) rs"
proof -
  let ?H' = "finish_obj H m sc mp"
  have fd: "finish_doc_heap w_text w_vector rrf_k mp tr vr H (k, m) = (?H', Inr ())"
    using finish_doc_heap_Inr [of w_text w_vector rrf_k tr vr "(k, m)" sc mp H] f by simp
  have i: "heap_inv H0 ?H' rs"
    by (rule finish_doc_heap_inv [OF sep_heap_inv [OF s] _ fd]) (simp add: m)
  have fr: "fresh H0 H r" if "r \<in> set rs" for r using sep_fresh [OF s that] .
  have d: "distinct rs" and da: "distinct (map (addr H) rs)" using s by (simp_all only: sep_def)
  have mlt: "m < length (objs H)" using fr [OF m] by (simp add: fresh_def)
  have "distinct (map (addr ?H') rs)"
  proof (rule distinct_map_update_fresh [OF da _ _ d])
    show "\<forall>r \<in> set rs. r \<noteq> m \<longrightarrow> addr ?H' r = addr H r"
      by (simp add: addr_finish_obj_other)
    show "\<forall>r \<in> set rs. addr ?H' m \<noteq> addr H r"
    proof
      fix r assume "r \<in> set rs"
      from fr [OF this] have "addr H r < length (lsts H)" by (simp add: fresh_def addr_def)
      then show "addr ?H' m \<noteq> addr H r" using addr_finish_obj_same [OF mlt] by simp
    qed
  qed
  then show ?thesis using i d by (simp add: sep_def)
qed

lemma finish_doc_heap_sim:
  assumes s: "sep H0 H rs" and m: "snd item \<in> set rs"
    and f: "finish_doc_heap w_text w_vector rrf_k mp tr vr H item = (H', res)"
  shows "sep H0 H' rs"
    "\<forall>r \<in> set rs. r \<noteq> snd item \<longrightarrow> deref H' r = deref H r"
    "\<forall>e. res = Inl e \<longrightarrow>
       finish_doc w_text w_vector rrf_k mp tr vr (fst item, deref H (snd item)) = Inl e"
    "res = Inr () \<longrightarrow>
       finish_doc w_text w_vector rrf_k mp tr vr (fst item, deref H (snd item)) =
         Inr (fst item, deref H' (snd item))"
proof -
  have fr: "fresh H0 H r" if "r \<in> set rs" for r using sep_fresh [OF s that] .
  have goal: "sep H0 H' rs \<and>
    (\<forall>r \<in> set rs. r \<noteq> snd item \<longrightarrow> deref H' r = deref H r) \<and>
    (\<forall>e. res = Inl e \<longrightarrow>
       finish_doc w_text w_vector rrf_k mp tr vr (fst item, deref H (snd item)) = Inl e) \<and>
    (res = Inr () \<longrightarrow>
       finish_doc w_text w_vector rrf_k mp tr vr (fst item, deref H (snd item)) =
         Inr (fst item, deref H' (snd item)))"
  proof (cases "fused_score w_text w_vector rrf_k tr vr (fst item)")
    case (Inl e)
    from finish_doc_heap_Inl [OF Inl, of mp H] f have "H' = H" "res = Inl e" by simp_all
    then show ?thesis using s Inl by (simp add: finish_doc_def)
  next
    case (Inr sc)
    from finish_doc_heap_Inr [OF Inr, of mp H] f
    have H': "H' = finish_obj H (snd item) sc mp" and res: "res = Inr ()" by simp_all
    have s': "sep H0 H' rs" unfolding H' by (rule finish_obj_sep [OF s m Inr])
    have mf: "snd item < length (objs H)" "addr H (snd item) < length (lsts H)"
      using fr [OF m] by (simp_all add: fresh_def addr_def)
    have same: "deref H' (snd item) =
        (deref H (snd item))\<lparr>score := sc,
           passages := top_passages mp (passages (deref H (snd item)))\<rparr>"
      unfolding H' by (rule deref_finish_obj_same [OF mf])
    have other: "\<forall>r \<in> set rs. r \<noteq> snd item \<longrightarrow> deref H' r = deref H r"
    proof (intro ballI impI)
      fix r assume r: "r \<in> set rs" "r \<noteq> snd item"
      from fr [OF r(1)] have "addr H r < length (lsts H)" by (simp add: fresh_def addr_def)
      with r(2) show "deref H' r = deref H r" unfolding H' by (rule deref_finish_obj_other)
    qed
    show ?thesis using s' other res same Inr by (simp add: finish_doc_def)
  qed
  from goal show "sep H0 H' rs" by simp
  from goal show "\<forall>r \<in> set rs. r \<noteq> snd item \<longrightarrow> deref H' r = deref H r" by simp
  from goal show "\<forall>e. res = Inl e \<longrightarrow>
       finish_doc w_text w_vector rrf_k mp tr vr (fst item, deref H (snd item)) = Inl e" by simp
  from goal show "res = Inr () \<longrightarrow>
       finish_doc w_text w_vector rrf_k mp tr vr (fst item, deref H (snd item)) =
         Inr (fst item, deref H' (snd item))" by simp
qed

lemma score_loop_heap_sim:
  assumes "sep H0 H rs" "set (map snd items) \<subseteq> set rs" "distinct (map snd items)"
    "score_loop_heap (finish_doc_heap w_text w_vector rrf_k mp tr vr) H items = (H', res)"
  shows "sep H0 H' rs \<and>
    (\<forall>r \<in> set rs. r \<notin> set (map snd items) \<longrightarrow> deref H' r = deref H r) \<and>
    (\<forall>e. res = Inl e \<longrightarrow>
       score_loop (finish_doc w_text w_vector rrf_k mp tr vr) (abs_merged H items) = Inl e) \<and>
    (res = Inr () \<longrightarrow>
       score_loop (finish_doc w_text w_vector rrf_k mp tr vr) (abs_merged H items) =
         Inr (abs_merged H' items))"
  using assms
proof (induction items arbitrary: H)
  case Nil
  then show ?case by (auto simp: abs_merged_def)
next
  case (Cons item items)
  let ?f = "finish_doc w_text w_vector rrf_k mp tr vr"
  obtain H1 r1 where f: "finish_doc_heap w_text w_vector rrf_k mp tr vr H item = (H1, r1)"
    by fastforce
  have m: "snd item \<in> set rs" using Cons.prems(2) by simp
  note f1 = finish_doc_heap_sim [OF Cons.prems(1) m f]
  have sub: "set (map snd items) \<subseteq> set rs" using Cons.prems(2) by simp
  have dis: "distinct (map snd items)" and notin: "snd item \<notin> set (map snd items)"
    using Cons.prems(3) by (simp_all del: set_map)
  have ab: "abs_merged H (item # items) = (fst item, deref H (snd item)) # abs_merged H items"
    by (simp add: abs_merged_def)
  show ?case
  proof (cases r1)
    case (Inl e)
    then have "H' = H1" "res = Inl e" using Cons.prems(4) f by simp_all
    moreover have "?f (fst item, deref H (snd item)) = Inl e" using f1(3) Inl by simp
    ultimately show ?thesis using f1(1,2) ab by simp
  next
    case (Inr u)
    then have r1: "r1 = Inr ()" by simp
    have loop: "score_loop_heap (finish_doc_heap w_text w_vector rrf_k mp tr vr) H1 items = (H', res)"
      using Cons.prems(4) f Inr by simp
    note IH = Cons.IH [OF f1(1) sub dis loop]
    have hd: "?f (fst item, deref H (snd item)) = Inr (fst item, deref H1 (snd item))"
      using f1(4) r1 by simp
    have keep: "deref H' (snd item) = deref H1 (snd item)"
      using IH m notin by blast
    have tl: "abs_merged H1 items = abs_merged H items"
    proof (rule abs_merged_cong)
      fix r assume r: "r \<in> set (map snd items)"
      then have "r \<noteq> snd item" using notin by blast
      moreover have "r \<in> set rs" using r sub by blast
      ultimately show "deref H1 r = deref H r" using f1(2) by blast
    qed
    have frame: "\<forall>r \<in> set rs. r \<notin> set (map snd (item # items)) \<longrightarrow> deref H' r = deref H r"
    proof (intro ballI impI)
      fix r assume r: "r \<in> set rs" "r \<notin> set (map snd (item # items))"
      then have "r \<noteq> snd item" "r \<notin> set (map snd items)" by (simp_all del: set_map)
      then have "deref H' r = deref H1 r" "deref H1 r = deref H r" using IH f1(2) r(1) by blast+
      then show "deref H' r = deref H r" by simp
    qed
    have sepH: "sep H0 H' rs" using IH by simp
    have errs: "\<forall>e. res = Inl e \<longrightarrow> score_loop ?f (abs_merged H (item # items)) = Inl e"
    proof (intro allI impI)
      fix e assume "res = Inl e"
      then have "score_loop ?f (abs_merged H1 items) = Inl e" using IH by simp
      then have rest: "score_loop ?f (abs_merged H items) = Inl e"
        by (simp only: tl)
      show "score_loop ?f (abs_merged H (item # items)) = Inl e"
        unfolding ab by (simp add: hd rest)
    qed
    have oks: "res = Inr () \<longrightarrow>
        score_loop ?f (abs_merged H (item # items)) = Inr (abs_merged H' (item # items))"
    proof
      assume "res = Inr ()"
      then have "score_loop ?f (abs_merged H1 items) = Inr (abs_merged H' items)" using IH by simp
      then have rest: "score_loop ?f (abs_merged H items) = Inr (abs_merged H' items)"
        by (simp only: tl)
      have ab': "abs_merged H' (item # items) = (fst item, deref H1 (snd item)) # abs_merged H' items"
        by (simp add: abs_merged_def keep)
      show "score_loop ?f (abs_merged H (item # items)) = Inr (abs_merged H' (item # items))"
        unfolding ab ab' by (simp add: hd rest)
    qed
    from sepH frame errs oks show ?thesis by (intro conjI)
  qed
qed

lemma map_insort_key:
  "map f (insort_key (\<lambda>x. g (f x)) a xs) = insort_key g (f a) (map f xs)"
  by (induction xs) simp_all

lemma map_sort_key_comp: "map f (sort_key (\<lambda>x. g (f x)) xs) = sort_key g (map f xs)"
  by (induction xs) (simp_all add: map_insort_key)

lemma map_sorted_desc: "map f (sorted_desc (\<lambda>x. g (f x)) xs) = sorted_desc g (map f xs)"
  unfolding sorted_desc_def by (rule map_sort_key_comp)

lemma score_deref: "score (deref H r) = o_score (objs H ! r)"
  by (simp add: deref_def)

lemma map_snd_abs_merged: "map snd (abs_merged H merged) = map (deref H) (map snd merged)"
  by (simp add: abs_merged_def)

lemma sep_Nil: "sep H H []"
  by (simp add: sep_def inv_refl)

lemma aggregate_heap_sim:
  assumes v: "valid_refs H hs"
    and a: "aggregate_heap H hs w_text w_vector rrf_k mp = (H', res)"
  shows "aggregate_search_hits (map (deref H) hs) w_text w_vector rrf_k mp =
           map_sum id (map (deref H')) res"
proof -
  let ?tr = "text_rank (map (deref H) hs)"
  let ?vr = "vector_rank (map (deref H) hs)"
  obtain H1 merged where m: "merge_loop_heap (H, []) hs = (H1, merged)" by fastforce
  have "sep H H1 (map snd merged) \<and>
        abs_merged H1 merged = merge_loop (abs_merged H []) (map (deref H) hs)"
    by (rule merge_loop_heap_sim [OF _ v m]) (simp add: sep_Nil)
  then have s1: "sep H H1 (map snd merged)"
    and m1: "merge_loop [] (map (deref H) hs) = abs_merged H1 merged"
    by (simp_all add: abs_merged_def)
  obtain H2 r2 where s: "score_loop_heap
      (finish_doc_heap w_text w_vector rrf_k mp ?tr ?vr) H1 merged = (H2, r2)" by fastforce
  have d: "distinct (map snd merged)" using s1 by (simp only: sep_def)
  note s2 = score_loop_heap_sim [OF s1 subset_refl d s]
  show ?thesis
  proof (cases r2)
    case (Inl e)
    then have "H' = H2" "res = Inl e" using a m s by (simp_all add: aggregate_heap_def Let_def)
    moreover have "score_loop (finish_doc w_text w_vector rrf_k mp ?tr ?vr) (abs_merged H1 merged) = Inl e"
      using s2 Inl by simp
    ultimately show ?thesis by (simp add: aggregate_search_hits_def m1)
  next
    case (Inr u)
    then have H': "H' = H2"
      and res: "res = Inr (sorted_desc (\<lambda>m. o_score (objs H2 ! m)) (map snd merged))"
      using a m s by (auto simp: aggregate_heap_def Let_def)
    have "r2 = Inr ()" using Inr by simp
    then have sl: "score_loop (finish_doc w_text w_vector rrf_k mp ?tr ?vr) (abs_merged H1 merged) =
        Inr (abs_merged H2 merged)" using s2 by simp
    have "map (deref H2) (sorted_desc (\<lambda>m. score (deref H2 m)) (map snd merged)) =
        sorted_desc score (map (deref H2) (map snd merged))"
      by (rule map_sorted_desc)
    then have "map (deref H2) (sorted_desc (\<lambda>m. o_score (objs H2 ! m)) (map snd merged)) =
        sorted_desc score (map snd (abs_merged H2 merged))"
      by (simp only: score_deref map_snd_abs_merged)
    then show ?thesis unfolding H' res by (simp add: aggregate_search_hits_def m1 sl)
  qed
qed

lemma valid_refs_deref:
  assumes "valid_refs H hs" "prefix (objs H) (objs H')" "prefix (lsts H) (lsts H')"
  shows "map (deref H') hs = map (deref H) hs"
proof (rule map_cong [OF refl])
  fix r assume "r \<in> set hs"
  then have "r < length (objs H)" "o_passages (objs H ! r) < length (lsts H)"
    using assms(1) by (simp_all add: valid_refs_def list_all_iff)
  then show "deref H' r = deref H r" by (intro deref_prefix assms(2,3))
qed

lemma valid_refs_single:
  "valid_refs H [r] \<Longrightarrow> prefix (objs H) (objs H') \<Longrightarrow> prefix (lsts H) (lsts H') \<Longrightarrow>
     deref H' r = deref H r"
  using valid_refs_deref [of H "[r]" H'] by simp

lemma fresh_unfold:
  "fresh H H' r =
     (length (objs H) \<le> r \<and> r < length (objs H') \<and>
      length (lsts H) \<le> addr H' r \<and> addr H' r < length (lsts H') \<and>
      meta (deref H' r) = None)"
  by (simp add: fresh_def addr_def deref_def)

lemma aggregate_heap_returns:
  assumes "valid_refs H hs" "0 \<le> rrf_k"
    and "aggregate_heap H hs w_text w_vector rrf_k mp = (H', res)"
  shows "\<exists>out. res = Inr out"
proof -
  from aggregate_total [OF assms(2)] obtain hits where
    "aggregate_search_hits (map (deref H) hs) w_text w_vector rrf_k mp = Inr hits" by blast
  with aggregate_heap_sim [OF assms(1,3)] have "map_sum id (map (deref H')) res = Inr hits"
    by simp
  then show ?thesis by (cases res) simp_all
qed

lemma ex_heap_valid: "valid_refs ex_heap [0, 1, 2, 3, 4]"
  by (simp add: valid_refs_def ex_heap_def store_def ex_hits_def enumerate_eq_zip upt_rec)

lemma ex_heap_deref: "map (deref ex_heap) [0, 1, 2, 3, 4] = ex_hits"
  by (simp add: deref_def ex_heap_def store_def ex_hits_def enumerate_eq_zip upt_rec)

lemma ex_heap_lengths: "length (objs ex_heap) = 5" "length (lsts ex_heap) = 5"
  by (simp_all add: ex_heap_def store_def ex_hits_def)

lemma ex_heap_run:
  "snd (aggregate_heap ex_heap [0, 1, 2, 3, 4] 1 1 60 3) = Inr [5, 7, 6]"
  by code_simp

lemma shared_heap_valid: "valid_refs shared_heap [0, 1, 0]"
  by (simp add: valid_refs_def shared_heap_def)

lemma shared_heap_run: "snd (aggregate_heap shared_heap [0, 1, 0] 1 1 60 3) = Inr [2]"
  by code_simp

section \<open>The claims about the fusion engine\<close>

text \<open>
  Claim C1, as the code has it. In \<open>aggregate_search_hits\<close> the rank map of a modality
  (the hits with \<open>bm25\<close> set, or those with \<open>cosine\<close> set, in their original relative
  order) gives a document id the 1-based position, in that subsequence, of the first hit
  with this id: every hit counts for a position, duplicates of earlier documents included.
  So the first document has rank 1, a document has an entry exactly when one of the
  modality's hits carries its id, the entry is the position of the first such hit, and a
  later hit of a ranked document neither adds nor changes an entry.
\<close>

theorem rank_is_first_position:
  "map_of (text_rank hs) d =
     (if d \<in> id_hit ` set (text_hits hs)
      then Some (1 + int (first_pos d (map id_hit (text_hits hs)))) else None) \<and>
   map_of (vector_rank hs) d =
     (if d \<in> id_hit ` set (vector_hits hs)
      then Some (1 + int (first_pos d (map id_hit (vector_hits hs)))) else None) \<and>
   (\<forall>r. map_of (text_rank hs) d = Some r \<longrightarrow> is_first_position (text_hits hs) d r) \<and>
   (\<forall>r. map_of (vector_rank hs) d = Some r \<longrightarrow> is_first_position (vector_hits hs) d r) \<and>
   distinct (map fst (text_rank hs)) \<and> distinct (map fst (vector_rank hs))"
  by (simp add: text_rank_def vector_rank_def map_of_rank_loop rank_loop_first_position
        distinct_rank_loop)

theorem rank_is_first_position_witness:
  "map_of (text_rank dup_hits) ''b'' = Some 3 \<and> is_first_position (text_hits dup_hits) ''b'' 3 \<and>
   map_of (text_rank dup_hits) ''a'' = Some 1 \<and> map_of (vector_rank dup_hits) ''a'' = None"
proof -
  have "map_of (text_rank dup_hits) ''b'' = Some 3"
    by (simp add: agg_defs dup_hits_def)
  then show ?thesis
    using rank_is_first_position [of dup_hits "''b''"]
    by (simp add: agg_defs dup_hits_def)
qed

text \<open>
  The claim's reading, that the second distinct id has rank 2 whatever stands before it,
  fails on three lexical hits of documents a, a, b: the code ranks b third.
\<close>

theorem rank_counts_positions_not_distinct_ids:
  "map_of (text_rank dup_hits) ''b'' \<noteq>
     distinct_count_rank (map id_hit (text_hits dup_hits)) ''b''"
  by (simp add: agg_defs dup_hits_def distinct_count_rank_def first_pos_def)

text \<open>
  Claim C2. Whenever \<open>aggregate_search_hits\<close> returns, the fused score of every merged
  document is \<open>w_text * (1 / (rrf_k + text_rank))\<close> if the document has a text rank, plus
  \<open>w_vector * (1 / (rrf_k + vector_rank))\<close> if it has a vector rank, a missing rank
  contributing nothing; and it returns whenever \<open>rrf_k\<close> is not negative. With the
  defaults the call returns, a document at lexical rank 1 and no vector rank scores 1/61,
  and one at lexical rank 1 and vector rank 1 scores 2/61.
\<close>

theorem fused_score_formula:
  "(0 \<le> rrf_k \<longrightarrow> (\<exists>out. aggregate_search_hits hs w_text w_vector rrf_k mp = Inr out)) \<and>
   (\<forall>out m. aggregate_search_hits hs w_text w_vector rrf_k mp = Inr out \<longrightarrow> m \<in> set out \<longrightarrow>
      score m =
        (case map_of (text_rank hs) (id_hit m) of
           None \<Rightarrow> 0 | Some r \<Rightarrow> w_text * (1 / real_of_int (rrf_k + r))) +
        (case map_of (vector_rank hs) (id_hit m) of
           None \<Rightarrow> 0 | Some r \<Rightarrow> w_vector * (1 / real_of_int (rrf_k + r)))) \<and>
   (\<exists>out. aggregate_default hs = Inr out \<and>
      (\<forall>m. m \<in> set out \<longrightarrow>
         (map_of (text_rank hs) (id_hit m) = Some 1 \<longrightarrow> map_of (vector_rank hs) (id_hit m) = None \<longrightarrow>
            score m = 1 / 61) \<and>
         (map_of (text_rank hs) (id_hit m) = Some 1 \<longrightarrow> map_of (vector_rank hs) (id_hit m) = Some 1 \<longrightarrow>
            score m = 2 / 61)))"
proof -
  have formula: "score m =
        (case map_of (text_rank hs) (id_hit m) of
           None \<Rightarrow> 0 | Some r \<Rightarrow> wt * (1 / real_of_int (k + r))) +
        (case map_of (vector_rank hs) (id_hit m) of
           None \<Rightarrow> 0 | Some r \<Rightarrow> wv * (1 / real_of_int (k + r)))"
    if a: "aggregate_search_hits hs wt wv k n = Inr out" and m: "m \<in> set out"
    for out m wt wv k n
  proof -
    from a m obtain x where x: "fst x = id_hit m"
      "finish_doc wt wv k n (text_rank hs) (vector_rank hs) x = Inr (id_hit m, m)"
      by (rule aggregate_member)
    have "fused_score wt wv k (text_rank hs) (vector_rank hs) (id_hit m) = Inr (score m)"
      using finish_docD(3) [OF x(2)] x(1) by simp
    then show ?thesis by (rule fused_score_value)
  qed
  obtain out where out: "aggregate_search_hits hs 1 1 60 3 = Inr out"
    using aggregate_total [of 60 hs 1 1 3] by auto
  have "\<forall>m. m \<in> set out \<longrightarrow>
         (map_of (text_rank hs) (id_hit m) = Some 1 \<longrightarrow> map_of (vector_rank hs) (id_hit m) = None \<longrightarrow>
            score m = 1 / 61) \<and>
         (map_of (text_rank hs) (id_hit m) = Some 1 \<longrightarrow> map_of (vector_rank hs) (id_hit m) = Some 1 \<longrightarrow>
            score m = 2 / 61)"
    using formula [OF out] by auto
  with out have "\<exists>out. aggregate_default hs = Inr out \<and>
      (\<forall>m. m \<in> set out \<longrightarrow>
         (map_of (text_rank hs) (id_hit m) = Some 1 \<longrightarrow> map_of (vector_rank hs) (id_hit m) = None \<longrightarrow>
            score m = 1 / 61) \<and>
         (map_of (text_rank hs) (id_hit m) = Some 1 \<longrightarrow> map_of (vector_rank hs) (id_hit m) = Some 1 \<longrightarrow>
            score m = 2 / 61))"
    unfolding aggregate_default_def by blast
  then show ?thesis
    using formula aggregate_total [of rrf_k hs w_text w_vector mp] by blast
qed

theorem fused_score_formula_witness:
  "(0::int) \<le> 60 \<and>
   (\<exists>out. aggregate_search_hits ex_hits 1 1 60 3 = Inr out \<and>
      map id_hit out = [''a'', ''c'', ''b''] \<and> map score out = [2 / 61, 1 / 62, 1 / 63]) \<and>
   map_of (text_rank ex_hits) ''a'' = Some 1 \<and> map_of (vector_rank ex_hits) ''a'' = Some 1 \<and>
   (\<exists>out. aggregate_default dup_hits = Inr out \<and>
      map id_hit out = [''a'', ''b''] \<and> map score out = [1 / 61, 1 / 63]) \<and>
   map_of (text_rank dup_hits) ''a'' = Some 1 \<and> map_of (vector_rank dup_hits) ''a'' = None"
proof -
  note fused_score_formula [of 60 ex_hits 1 1 3]
  then show ?thesis
    by (simp add: ex_hits_result dup_hits_result ex_hits_ranks dup_hits_ranks aggregate_default_def)
qed

text \<open>
  Claim C5. Whenever \<open>aggregate_search_hits\<close> returns, the document ids of its output
  are exactly the ids of the input hits, each once; it returns whenever \<open>rrf_k\<close> is not
  negative; and on the empty input it returns the empty list.
\<close>

theorem aggregate_ids_exact:
  "(\<forall>out. aggregate_search_hits hs w_text w_vector rrf_k mp = Inr out \<longrightarrow>
       set (map id_hit out) = id_hit ` set hs \<and> distinct (map id_hit out)) \<and>
   (0 \<le> rrf_k \<longrightarrow> (\<exists>out. aggregate_search_hits hs w_text w_vector rrf_k mp = Inr out)) \<and>
   aggregate_search_hits [] w_text w_vector rrf_k mp = Inr []"
proof (intro conjI allI impI)
  fix out assume a: "aggregate_search_hits hs w_text w_vector rrf_k mp = Inr out"
  have m: "mset (map id_hit out) = mset (map fst (merge_loop [] hs))"
    by (rule aggregate_ids [OF a])
  have "set (map id_hit out) = set (map fst (merge_loop [] hs))"
    by (rule mset_eq_setD [OF m])
  then show "set (map id_hit out) = id_hit ` set hs"
    using set_keys_merge_loop [of "[]" hs] by simp
  have "distinct (map fst (merge_loop [] hs))"
    by (rule distinct_keys_merge_loop) simp
  then show "distinct (map id_hit out)"
    using mset_eq_imp_distinct_iff [OF m] by simp
next
  assume "0 \<le> rrf_k"
  then show "\<exists>out. aggregate_search_hits hs w_text w_vector rrf_k mp = Inr out"
    by (rule aggregate_total)
next
  show "aggregate_search_hits [] w_text w_vector rrf_k mp = Inr []"
    by (rule aggregate_Nil)
qed

theorem aggregate_ids_exact_witness:
  "(0::int) \<le> 60 \<and>
   (\<exists>out. aggregate_search_hits ex_hits 1 1 60 3 = Inr out \<and>
      set (map id_hit out) = {''a'', ''b'', ''c''} \<and> distinct (map id_hit out)) \<and>
   id_hit ` set ex_hits = {''a'', ''b'', ''c''}"
proof -
  have ids: "id_hit ` set ex_hits = {''a'', ''b'', ''c''}"
    by (auto simp: ex_hits_def lexical_hit_def vector_hit_def)
  from aggregate_ids_exact [of ex_hits 1 1 60 3] ids show ?thesis
    by (simp add: ex_hits_result)
qed

text \<open>
  Claim C6. Whenever \<open>aggregate_search_hits\<close> returns, its output is ordered by fused
  score, descending, and documents of equal score stand in the order in which their ids
  first occur in the input; in particular each document's score is at least that of the
  next one. It returns whenever \<open>rrf_k\<close> is not negative.
\<close>

theorem output_sorted_by_score:
  "(0 \<le> rrf_k \<longrightarrow> (\<exists>out. aggregate_search_hits hs w_text w_vector rrf_k mp = Inr out)) \<and>
   (\<forall>out. aggregate_search_hits hs w_text w_vector rrf_k mp = Inr out \<longrightarrow>
      sorted_wrt (\<lambda>m m'. score m' < score m \<or>
                    (score m' = score m \<and>
                     first_pos (id_hit m) (map id_hit hs) < first_pos (id_hit m') (map id_hit hs))) out \<and>
      (\<forall>i. Suc i < length out \<longrightarrow> score (out ! Suc i) \<le> score (out ! i)))"
proof (intro conjI allI impI)
  assume "0 \<le> rrf_k"
  then show "\<exists>out. aggregate_search_hits hs w_text w_vector rrf_k mp = Inr out"
    by (rule aggregate_total)
next
  fix out assume a: "aggregate_search_hits hs w_text w_vector rrf_k mp = Inr out"
  let ?R = "\<lambda>a b. first_pos a (map id_hit hs) < first_pos b (map id_hit hs)"
  from a obtain d' where
    d': "list_all2 (\<lambda>x y. finish_doc w_text w_vector rrf_k mp (text_rank hs) (vector_rank hs) x = Inr y)
       (merge_loop [] hs) d'" and out: "out = sorted_desc score (map snd d')"
    by (rule aggregateD)
  have "map (\<lambda>y. id_hit (snd y)) d' = map fst (merge_loop [] hs)"
    by (rule all2_ids [OF d']) (simp add: merged_item_id)
  then have "map id_hit (map snd d') = map fst (merge_loop [] hs)" by (simp add: comp_def)
  then have "sorted_wrt ?R (map id_hit (map snd d'))"
    using keys_order_merge_loop [of hs] by simp
  then have "sorted_wrt (\<lambda>m m'. ?R (id_hit m) (id_hit m')) (map snd d')"
    by (simp only: sorted_wrt_map)
  then show lex: "sorted_wrt (\<lambda>m m'. score m' < score m \<or>
                    (score m' = score m \<and>
                     first_pos (id_hit m) (map id_hit hs) < first_pos (id_hit m') (map id_hit hs))) out"
    unfolding out by (rule sorted_desc_lex)
  fix i assume i: "Suc i < length out"
  have "i < Suc i" by simp
  from sorted_wrt_nth_less [OF lex this i]
  show "score (out ! Suc i) \<le> score (out ! i)" by auto
qed

theorem output_sorted_by_score_witness:
  "(0::int) \<le> 60 \<and>
   (\<exists>out. aggregate_search_hits tie_hits 1 1 60 3 = Inr out \<and>
      map id_hit out = [''b'', ''a'', ''c''] \<and> map score out = [1 / 61, 1 / 61, 1 / 62] \<and>
      Suc 0 < length out) \<and>
   first_pos ''b'' (map id_hit tie_hits) < first_pos ''a'' (map id_hit tie_hits)"
proof -
  have fp: "first_pos ''b'' (map id_hit tie_hits) < first_pos ''a'' (map id_hit tie_hits)"
    by (simp add: tie_hits_def lexical_hit_def vector_hit_def first_pos_def)
  from output_sorted_by_score [of 60 tie_hits 1 1 3] fp show ?thesis
    by (simp add: tie_hits_result)
qed

text \<open>
  Claim C4. Let \<open>m\<close> be a document of the output of \<open>aggregate_search_hits\<close> and
  \<open>max_passages_per_doc\<close> be non-negative. The passages of \<open>m\<close> are the first
  \<open>max_passages_per_doc\<close> of a list \<open>S\<close>, sorted by score descending, where \<open>S\<close> holds
  one passage for every chunk id among the concatenated input passages of the document:
  the first one, in input order, among those of highest score for that chunk id. So the
  output passages are sorted by score descending, are at most \<open>max_passages_per_doc\<close>, have
  pairwise different chunk ids, and each is an input passage of the document whose score
  no input passage of the same chunk beats. Two hits of one document with one passage
  each, of the same chunk id and different scores, give one document with exactly one
  passage: the one of higher score. The call returns whenever \<open>rrf_k\<close> is not negative.
\<close>

theorem passages_dedup_sorted_capped:
  "(0 \<le> rrf_k \<longrightarrow> (\<exists>out. aggregate_search_hits hs w_text w_vector rrf_k mp = Inr out)) \<and>
   (\<forall>out m. aggregate_search_hits hs w_text w_vector rrf_k mp = Inr out \<longrightarrow> m \<in> set out \<longrightarrow>
      0 \<le> mp \<longrightarrow>
      (\<exists>S. distinct (map chunk_id S) \<and>
           set (map chunk_id S) = chunk_id ` set (doc_passages hs (id_hit m)) \<and>
           (\<forall>p \<in> set S. best_for_chunk (doc_passages hs (id_hit m)) (chunk_id p) = Some p) \<and>
           passages m = take (nat mp) (sorted_desc score_psg S)) \<and>
      sorted_wrt (\<lambda>p q. score_psg q \<le> score_psg p) (passages m) \<and>
      length (passages m) \<le> nat mp \<and>
      distinct (map chunk_id (passages m)) \<and>
      (\<forall>p \<in> set (passages m).
         p \<in> set (doc_passages hs (id_hit m)) \<and>
         (\<forall>q \<in> set (doc_passages hs (id_hit m)).
            chunk_id q = chunk_id p \<longrightarrow> score_psg q \<le> score_psg p))) \<and>
   (\<forall>h1 h2 p1 p2.
      id_hit h1 = id_hit h2 \<longrightarrow> passages h1 = [p1] \<longrightarrow> passages h2 = [p2] \<longrightarrow>
      chunk_id p1 = chunk_id p2 \<longrightarrow> score_psg p1 \<noteq> score_psg p2 \<longrightarrow> 0 \<le> rrf_k \<longrightarrow> 1 \<le> mp \<longrightarrow>
      (\<exists>m. aggregate_search_hits [h1, h2] w_text w_vector rrf_k mp = Inr [m] \<and>
           passages m = [if score_psg p1 < score_psg p2 then p2 else p1]))"
proof (intro conjI allI impI)
  assume "0 \<le> rrf_k"
  then show "\<exists>out. aggregate_search_hits hs w_text w_vector rrf_k mp = Inr out"
    by (rule aggregate_total)
next
  fix h1 h2 :: SearchHit and p1 p2 :: Passage
  assume "id_hit h1 = id_hit h2" "passages h1 = [p1]" "passages h2 = [p2]"
    "chunk_id p1 = chunk_id p2" "0 \<le> rrf_k" "1 \<le> mp"
  then show "\<exists>m. aggregate_search_hits [h1, h2] w_text w_vector rrf_k mp = Inr [m] \<and>
           passages m = [if score_psg p1 < score_psg p2 then p2 else p1]"
    using two_hits_one_doc [of h1 h2 rrf_k w_text w_vector mp] top_passages_same_chunk [of p1 p2 mp]
    by simp
next
  fix out m
  assume a: "aggregate_search_hits hs w_text w_vector rrf_k mp = Inr out" "m \<in> set out"
    and mp: "0 \<le> mp"
  let ?P = "doc_passages hs (id_hit m)"
  have pm: "passages m = top_passages mp ?P"
    unfolding doc_passages_def by (rule aggregate_passages [OF a])
  note tp = top_passages_props [OF mp, of ?P]
  show "\<exists>S. distinct (map chunk_id S) \<and>
           set (map chunk_id S) = chunk_id ` set ?P \<and>
           (\<forall>p \<in> set S. best_for_chunk ?P (chunk_id p) = Some p) \<and>
           passages m = take (nat mp) (sorted_desc score_psg S)"
    unfolding pm by (rule tp(1))
  show "sorted_wrt (\<lambda>p q. score_psg q \<le> score_psg p) (passages m)"
    unfolding pm by (rule tp(2))
  show "length (passages m) \<le> nat mp"
    unfolding pm by (rule tp(3))
  show "distinct (map chunk_id (passages m))"
    unfolding pm by (rule tp(4))
  show "\<forall>p \<in> set (passages m).
         p \<in> set ?P \<and> (\<forall>q \<in> set ?P. chunk_id q = chunk_id p \<longrightarrow> score_psg q \<le> score_psg p)"
  proof
    fix p assume "p \<in> set (passages m)"
    then have b: "best_for_chunk ?P (chunk_id p) = Some p"
      using tp(5) pm by simp
    from best_for_chunk_SomeD(1,3) [OF b]
    show "p \<in> set ?P \<and> (\<forall>q \<in> set ?P. chunk_id q = chunk_id p \<longrightarrow> score_psg q \<le> score_psg p)"
      by simp
  qed
qed

theorem passages_dedup_sorted_capped_witness:
  "(0::int) \<le> 60 \<and> (0::int) \<le> 3 \<and> (1::int) \<le> 3 \<and>
   (\<exists>out. aggregate_search_hits dedup_hits 1 1 60 3 = Inr out \<and>
      map (\<lambda>m. map (\<lambda>p. (chunk_id p, score_psg p)) (passages m)) out =
        [[(''c2'', 5), (''c3'', 4), (''c4'', 3)]]) \<and>
   map (\<lambda>p. (chunk_id p, score_psg p)) (doc_passages dedup_hits ''a'') =
     [(''c1'', 1), (''c1'', 2), (''c2'', 5), (''c3'', 4), (''c4'', 3)] \<and>
   (\<exists>out. aggregate_search_hits same_chunk_hits 1 1 60 3 = Inr out \<and>
      map (\<lambda>m. map (\<lambda>p. (chunk_id p, score_psg p)) (passages m)) out = [[(''c1'', 2)]])"
proof -
  have dp: "map (\<lambda>p. (chunk_id p, score_psg p)) (doc_passages dedup_hits ''a'') =
     [(''c1'', 1), (''c1'', 2), (''c2'', 5), (''c3'', 4), (''c4'', 3)]"
    by (simp add: doc_passages_def dedup_hits_def lexical_hit_def vector_hit_def)
  from passages_dedup_sorted_capped [of 60 dedup_hits 1 1 3] dp show ?thesis
    by (simp add: dedup_hits_result same_chunk_hits_result)
qed

text \<open>
  Claim C3 does not hold of the code. The merged raw score is computed as
  \<open>max(m.cosine or float("-inf"), h.cosine)\<close>, and a best score so far of \<open>0.0\<close> is
  falsy: it is replaced by minus infinity, so the next hit's score wins even when it is
  lower. Two vector hits of one document with cosine 0 and then -1 merge to cosine -1,
  where the maximum is 0; the same happens to \<open>bm25\<close>.
\<close>

theorem best_raw_score_zero_is_dropped:
  "aggregate_default zero_cosine_hits = Inr
     [\<lparr>id_hit = ''a'', bm25 = None, cosine = Some (- 1), score = 1 / 61, meta = None,
        passages = [\<lparr>chunk_id = ''a1'', text_psg = ''t'', score_psg = 0, retriever = Vector\<rparr>,
                    \<lparr>chunk_id = ''a2'', text_psg = ''t'', score_psg = - 1, retriever = Vector\<rparr>]\<rparr>] \<and>
   aggregate_default zero_bm25_hits = Inr
     [\<lparr>id_hit = ''a'', bm25 = Some (- 1), cosine = None, score = 1 / 61, meta = None,
        passages = [\<lparr>chunk_id = ''a1'', text_psg = ''t'', score_psg = 0, retriever = Bm25\<rparr>,
                    \<lparr>chunk_id = ''a2'', text_psg = ''t'', score_psg = - 1, retriever = Bm25\<rparr>]\<rparr>] \<and>
   Max {0, - 1 :: real} = 0"
  by (simp add: agg_defs zero_cosine_hits_def zero_bm25_hits_def)

section \<open>The claim about the snippet extractor\<close>

text \<open>
  Claim C7 does not hold of the code. \<open>make_snippet\<close> looks for the query in
  \<open>t.lower()\<close> and uses the offset it finds there to cut \<open>t\<close> itself. The two offsets
  differ as soon as lower-casing changes the length of the text before the match. For the
  text \<open>U+0130, space, needle\<close> and the query \<open>needle\<close>, with window 2: the query occurs
  in the text at offset 2 and nowhere before; the lower-cased text has 9 characters where
  the text has 8, and \<open>find\<close> returns 3; \<open>make_snippet\<close> returns \<open>...ne...\<close>, the window
  around offset 3, where the window the claim describes around the occurrence, at offset
  2, is \<open>...\<close>, space, \<open>n...\<close>.
\<close>

theorem make_snippet_window_at_lowered_offset:
  "strip dotted needle = needle \<and>
   lower dotted needle = needle \<and>
   lower dotted dotted_text = Latin1 CHR ''i'' # Combining_dot_above # map Latin1 '' needle'' \<and>
   length dotted_text = 8 \<and> length (lower dotted dotted_text) = 9 \<and>
   str_find (lower dotted dotted_text) (lower dotted (strip dotted needle)) = 3 \<and>
   occurs_at dotted_text needle 2 \<and>
   \<not> occurs_at dotted_text needle 0 \<and> \<not> occurs_at dotted_text needle 1 \<and>
   \<not> occurs_at dotted_text needle 3 \<and>
   make_snippet dotted dotted_text needle 2 = map Latin1 ''...ne...'' \<and>
   window_at (ellipsis dotted) dotted_text 3 2 = map Latin1 ''...ne...'' \<and>
   window_at (ellipsis dotted) dotted_text 2 2 = map Latin1 ''... n...'' \<and>
   make_snippet dotted dotted_text needle 2 \<noteq> window_at (ellipsis dotted) dotted_text 2 2"
proof -
  have n3: "\<not> occurs_at dotted_text needle 3"
    by code_simp
  have ne: "make_snippet dotted dotted_text needle 2 \<noteq> window_at (ellipsis dotted) dotted_text 2 2"
    unfolding snippet_dotted window_dotted_2 by simp
  show ?thesis
    using strip_needle lower_needle lower_dotted_text length_dotted find_dotted occurs_dotted n3
      snippet_dotted window_dotted_3 window_dotted_2 ne
    by (intro conjI)
qed

text \<open>
  What \<open>make_snippet\<close> does in general, for every \<open>str.lower\<close> and \<open>str.strip\<close>. It
  returns the empty string for an empty text. For a window that is not negative, when
  the whitespace-trimmed query is empty, or the lower-cased trimmed query occurs nowhere in
  the lower-cased text, it returns the first \<open>window\<close> characters of the text followed by
  the ellipsis marker exactly when the text is longer than \<open>window\<close>; so
  \<open>make_snippet("hello world", "", 4)\<close> is \<open>hell...\<close>. When the first occurrence of the
  lower-cased trimmed query in the lower-cased text is at offset \<open>idx\<close>, it returns the
  window of the text around \<open>idx\<close>, an offset of the lower-cased text: for a window that
  is not negative, the text from \<open>max(0, idx - window div 2)\<close> to
  \<open>min(len(text), idx + window div 2)\<close>, with the marker in front iff that start is above
  0 and behind iff that end is below the length of the text.
\<close>

theorem make_snippet_contract:
  "make_snippet U [] query window = [] \<and>
   (0 \<le> window \<longrightarrow>
      (strip U query = [] \<or> (\<forall>j. \<not> occurs_at (lower U txt) (lower U (strip U query)) j)) \<longrightarrow>
      make_snippet U txt query window =
        take (nat window) txt @ (if nat window < length txt then ellipsis U else [])) \<and>
   make_snippet latin1 ''hello world'' [] 4 = ''hell...'' \<and>
   (\<forall>idx. txt \<noteq> [] \<longrightarrow> strip U query \<noteq> [] \<longrightarrow>
      occurs_at (lower U txt) (lower U (strip U query)) idx \<longrightarrow>
      (\<forall>j<idx. \<not> occurs_at (lower U txt) (lower U (strip U query)) j) \<longrightarrow>
      make_snippet U txt query window = window_at (ellipsis U) txt (int idx) window) \<and>
   (\<forall>idx. 0 \<le> window \<longrightarrow>
      window_at (ellipsis U) txt (int idx) window =
        (if 0 < idx - nat window div 2 then ellipsis U else []) @
        drop (idx - nat window div 2) (take (min (length txt) (idx + nat window div 2)) txt) @
        (if min (length txt) (idx + nat window div 2) < length txt then ellipsis U else []))"
proof (intro conjI allI impI)
  show "make_snippet U [] query window = []"
    by (rule make_snippet_empty_text)
  show "make_snippet latin1 ''hello world'' [] 4 = ''hell...''"
    by (rule snippet_hello)
next
  assume "0 \<le> window"
    "strip U query = [] \<or> (\<forall>j. \<not> occurs_at (lower U txt) (lower U (strip U query)) j)"
  then show "make_snippet U txt query window =
        take (nat window) txt @ (if nat window < length txt then ellipsis U else [])"
    by (rule make_snippet_prefix_case_nonneg)
next
  fix idx
  assume "txt \<noteq> []" "strip U query \<noteq> []"
    "occurs_at (lower U txt) (lower U (strip U query)) idx"
    "\<forall>j<idx. \<not> occurs_at (lower U txt) (lower U (strip U query)) j"
  then show "make_snippet U txt query window = window_at (ellipsis U) txt (int idx) window"
    by (rule make_snippet_found_case)
next
  fix idx
  assume "0 \<le> window"
  then show "window_at (ellipsis U) txt (int idx) window =
        (if 0 < idx - nat window div 2 then ellipsis U else []) @
        drop (idx - nat window div 2) (take (min (length txt) (idx + nat window div 2)) txt) @
        (if min (length txt) (idx + nat window div 2) < length txt then ellipsis U else [])"
    by (rule window_at_nonneg)
qed

theorem make_snippet_contract_witness:
  "(0::int) \<le> 4 \<and> ''the quick brown fox'' \<noteq> [] \<and> strip latin1 '' BROWN  '' \<noteq> [] \<and>
   occurs_at (lower latin1 ''the quick brown fox'') (lower latin1 (strip latin1 '' BROWN  '')) 10 \<and>
   make_snippet latin1 ''the quick brown fox'' '' BROWN  '' 4 = ''...k br...'' \<and>
   strip latin1 [] = [] \<and> make_snippet latin1 ''hello world'' [] 4 = ''hell...''"
proof -
  let ?t = "''the quick brown fox''"
  let ?q = "'' BROWN  ''"
  have a: "occurs_at (lower latin1 ?t) (lower latin1 (strip latin1 ?q)) 10"
    and b: "\<forall>j<10. \<not> occurs_at (lower latin1 ?t) (lower latin1 (strip latin1 ?q)) j"
    using brown_at_10 by (simp_all only: strip_brown lower_brown lower_fox)
  have c: "strip latin1 ?q \<noteq> []" by (simp add: strip_brown)
  have d: "?t \<noteq> []" by simp
  note inst = make_snippet_contract [of latin1 ?q 4 ?t]
  from inst have found: "\<forall>idx. ?t \<noteq> [] \<longrightarrow> strip latin1 ?q \<noteq> [] \<longrightarrow>
      occurs_at (lower latin1 ?t) (lower latin1 (strip latin1 ?q)) idx \<longrightarrow>
      (\<forall>j<idx. \<not> occurs_at (lower latin1 ?t) (lower latin1 (strip latin1 ?q)) j) \<longrightarrow>
      make_snippet latin1 ?t ?q 4 = window_at (ellipsis latin1) ?t (int idx) 4"
    by (elim conjE)
  from found a b c d have "make_snippet latin1 ?t ?q 4 = window_at (ellipsis latin1) ?t (int 10) 4"
    by blast
  also have "\<dots> = ''...k br...''" by code_simp
  finally have r: "make_snippet latin1 ?t ?q 4 = ''...k br...''" .
  have e: "strip latin1 [] = []" by code_simp
  from inst have h: "make_snippet latin1 ''hello world'' [] 4 = ''hell...''" by (elim conjE)
  have w: "(0::int) \<le> 4" by simp
  from w d c a r e h show ?thesis by (intro conjI)
qed

section \<open>The claims about the orchestrator\<close>

text \<open>
  Claim C8, as the code has it. \<open>search\<close> awaits the lexical adapter and then the vector
  adapter with no handler around either, so an error of one modality is the outcome of
  the request. If the lexical search raises, \<open>search\<close> fails with that error and nothing
  else is called; if it succeeds and the embedding call or the vector search raises,
  \<open>search\<close> fails with that error. A response is returned only if the lexical search,
  the embedding call and the vector search all succeeded.
\<close>

theorem search_fails_when_a_modality_fails:
  "(\<forall>e. lexical_search svc qry (search_k page page_size) = Inl e \<longrightarrow>
        search svc qry page page_size = ([LexicalSearch qry (search_k page page_size)], Inl e)) \<and>
   (\<forall>xs e. lexical_search svc qry (search_k page page_size) = Inr xs \<longrightarrow>
        embed svc (embed_input qry) = Inl e \<longrightarrow>
        search svc qry page page_size =
          ([LexicalSearch qry (search_k page page_size), Embed (embed_input qry)], Inl e)) \<and>
   (\<forall>xs v e. lexical_search svc qry (search_k page page_size) = Inr xs \<longrightarrow>
        embed svc (embed_input qry) = Inr v \<longrightarrow>
        vector_query svc v (search_k page page_size) = Inl e \<longrightarrow>
        search svc qry page page_size =
          ([LexicalSearch qry (search_k page page_size), Embed (embed_input qry),
            VectorSearch v (search_k page page_size)], Inl e)) \<and>
   (\<forall>r. snd (search svc qry page page_size) = Inr r \<longrightarrow>
        (\<exists>xs v ys. lexical_search svc qry (search_k page page_size) = Inr xs \<and>
           embed svc (embed_input qry) = Inr v \<and>
           vector_query svc v (search_k page page_size) = Inr ys))"
proof (intro conjI allI impI)
  fix e assume "lexical_search svc qry (search_k page page_size) = Inl e"
  then show "search svc qry page page_size = ([LexicalSearch qry (search_k page page_size)], Inl e)"
    by (rule search_lexical_Inl)
next
  fix xs e
  assume "lexical_search svc qry (search_k page page_size) = Inr xs"
    "embed svc (embed_input qry) = Inl e"
  then show "search svc qry page page_size =
          ([LexicalSearch qry (search_k page page_size), Embed (embed_input qry)], Inl e)"
    by (rule search_embed_Inl)
next
  fix xs v e
  assume "lexical_search svc qry (search_k page page_size) = Inr xs"
    "embed svc (embed_input qry) = Inr v" "vector_query svc v (search_k page page_size) = Inl e"
  then show "search svc qry page page_size =
          ([LexicalSearch qry (search_k page page_size), Embed (embed_input qry),
            VectorSearch v (search_k page page_size)], Inl e)"
    by (rule search_vector_Inl)
next
  fix r assume "snd (search svc qry page page_size) = Inr r"
  then show "\<exists>xs v ys. lexical_search svc qry (search_k page page_size) = Inr xs \<and>
           embed svc (embed_input qry) = Inr v \<and>
           vector_query svc v (search_k page page_size) = Inr ys"
    by (rule search_result)
qed

theorem search_fails_when_a_modality_fails_witness:
  "lexical_search svc_lexical_down ''text'' (search_k 1 10) = Inl (ServiceError ''lexical'') \<and>
   search svc_lexical_down ''text'' 1 10 = ([LexicalSearch ''text'' 50], Inl (ServiceError ''lexical'')) \<and>
   search_k 1 10 = 50"
proof -
  have a: "lexical_search svc_lexical_down ''text'' (search_k 1 10) = Inl (ServiceError ''lexical'')"
    and k: "search_k 1 10 = 50"
    by (simp_all add: svc_lexical_down_def svc_ok_def search_k_def recall_k_def)
  from search_fails_when_a_modality_fails [of svc_lexical_down "''text''" 1 10] a k
  show ?thesis by simp
qed

text \<open>
  The claim itself fails: with the lexical search down and the vector search working the
  request fails and the vector search is never called, and with the vector search down
  the request fails although the lexical search returned a hit.
\<close>

theorem search_without_degradation:
  "search svc_lexical_down ''text'' 1 10 = ([LexicalSearch ''text'' 50], Inl (ServiceError ''lexical'')) \<and>
   embed svc_lexical_down ''text'' = Inr [1, 0] \<and>
   vector_query svc_lexical_down [1, 0] 50 =
     Inr [\<lparr>item_id = ''c2'', document_id = ''b'', item_text = Some ''other text'', search_score = 1\<rparr>] \<and>
   search svc_vector_down ''text'' 1 10 =
     ([LexicalSearch ''text'' 50, Embed ''text'', VectorSearch [1, 0] 50],
      Inl (ServiceError ''vector'')) \<and>
   lexical_search svc_vector_down ''text'' 50 =
     Inr [\<lparr>item_id = ''c1'', document_id = ''a'', item_text = Some ''some text'', search_score = 2\<rparr>]"
proof -
  have "embed svc_lexical_down ''text'' = Inr [1, 0]"
    by (simp add: svc_lexical_down_def svc_ok_def)
  moreover have "vector_query svc_lexical_down [1, 0] 50 =
     Inr [\<lparr>item_id = ''c2'', document_id = ''b'', item_text = Some ''other text'', search_score = 1\<rparr>]"
    by (simp add: svc_lexical_down_def svc_ok_def)
  moreover have "lexical_search svc_vector_down ''text'' 50 =
     Inr [\<lparr>item_id = ''c1'', document_id = ''a'', item_text = Some ''some text'', search_score = 2\<rparr>]"
    by (simp add: svc_vector_down_def svc_ok_def)
  ultimately show ?thesis
    using search_lexical_down search_vector_down by (intro conjI)
qed

text \<open>
  Claim C9, as the code has it. \<open>search\<close> does not look at the query before retrieval:
  for the empty query its first act is the lexical search with the empty query and the
  request's recall budget. When that, the embedding of the empty query and the vector
  search succeed, the fusion returns the ranked documents, and when the metadata lookups
  of the documents of the requested page succeed (those of other documents are never
  made), \<open>search\<close> makes exactly these calls and returns a response for the empty
  query with the documents of the page. It fails only with an error raised by a
  collaborator: when the request fails, the last call made is the one that raised the
  error.
\<close>

theorem search_does_not_check_the_query:
  "take 1 (fst (search svc [] page page_size)) = [LexicalSearch [] (search_k page page_size)] \<and>
   (\<forall>xs v ys docs. lexical_search svc [] (search_k page page_size) = Inr xs \<longrightarrow>
        embed svc [] = Inr v \<longrightarrow>
        vector_query svc v (search_k page page_size) = Inr ys \<longrightarrow>
        aggregate_default (map (text_hit_of []) xs @ map (vector_hit_of []) ys) = Inr docs \<longrightarrow>
        (\<forall>doc \<in> set (page_of page page_size docs). \<exists>m. get_document svc (id_hit doc) = Inr m) \<longrightarrow>
        (\<exists>r. search svc [] page page_size =
            ([LexicalSearch [] (search_k page page_size), Embed [],
              VectorSearch v (search_k page page_size)] @
             map (\<lambda>doc. GetDocument (id_hit doc)) (page_of page page_size docs), Inr r) \<and>
           resp_query r = [] \<and>
           map id_hit (results r) = map id_hit (page_of page page_size docs))) \<and>
   (\<forall>xs v ys. lexical_search svc [] (search_k page page_size) = Inr xs \<longrightarrow>
        embed svc [] = Inr v \<longrightarrow>
        vector_query svc v (search_k page page_size) = Inr ys \<longrightarrow>
        (\<exists>docs. aggregate_default (map (text_hit_of []) xs @ map (vector_hit_of []) ys) = Inr docs)) \<and>
   (\<forall>e. snd (search svc [] page page_size) = Inl e \<longrightarrow>
        fst (search svc [] page page_size) \<noteq> [] \<and>
        call_error svc (last (fst (search svc [] page page_size))) = Some e)"
proof (intro conjI allI impI)
  show "take 1 (fst (search svc [] page page_size)) = [LexicalSearch [] (search_k page page_size)]"
    unfolding search_unfold
    by (cases "lexical_search svc [] (search_k page page_size)")
       (simp_all add: text_search_Inl text_search_Inr bind_io_Inr)
next
  fix xs v ys docs
  assume "lexical_search svc [] (search_k page page_size) = Inr xs" "embed svc [] = Inr v"
    "vector_query svc v (search_k page page_size) = Inr ys"
    "aggregate_default (map (text_hit_of []) xs @ map (vector_hit_of []) ys) = Inr docs"
    "\<forall>doc \<in> set (page_of page page_size docs). \<exists>m. get_document svc (id_hit doc) = Inr m"
  then show "\<exists>r. search svc [] page page_size =
            ([LexicalSearch [] (search_k page page_size), Embed [],
              VectorSearch v (search_k page page_size)] @
             map (\<lambda>doc. GetDocument (id_hit doc)) (page_of page page_size docs), Inr r) \<and>
           resp_query r = [] \<and>
           map id_hit (results r) = map id_hit (page_of page page_size docs)"
    using search_page_success [of svc "[]" page page_size xs v ys docs]
    by (simp add: embed_input_def)
next
  fix xs :: "item list" and v :: "real list" and ys :: "item list"
  show "\<exists>docs. aggregate_default (map (text_hit_of []) xs @ map (vector_hit_of []) ys) = Inr docs"
    unfolding aggregate_default_def using aggregate_total [of 60] by (metis zero_le_numeral)
next
  fix e assume "snd (search svc [] page page_size) = Inl e"
  then show "fst (search svc [] page page_size) \<noteq> []"
    and "call_error svc (last (fst (search svc [] page page_size))) = Some e"
    using search_error_origin [of svc "[]" page page_size e] by simp_all
qed

theorem search_does_not_check_the_query_witness:
  "lexical_search svc_offpage_down [] (search_k 1 1) =
     Inr [\<lparr>item_id = ''c1'', document_id = ''a'', item_text = Some ''some text'', search_score = 2\<rparr>] \<and>
   embed svc_offpage_down [] = Inr [1, 0] \<and>
   vector_query svc_offpage_down [1, 0] (search_k 1 1) =
     Inr [\<lparr>item_id = ''c2'', document_id = ''b'', item_text = Some ''other text'', search_score = 1\<rparr>] \<and>
   get_document svc_offpage_down ''a'' = Inr (doc_meta ''a'') \<and>
   get_document svc_offpage_down ''b'' = Inl (ServiceError ''metadata'') \<and>
   (\<exists>r. search svc_offpage_down [] 1 1 =
      ([LexicalSearch [] 50, Embed [], VectorSearch [1, 0] 50, GetDocument ''a''], Inr r) \<and>
      resp_query r = [] \<and> map id_hit (results r) = [''a''])"
proof -
  let ?xs = "[\<lparr>item_id = ''c1'', document_id = ''a'', item_text = Some ''some text'', search_score = 2\<rparr>]"
  let ?ys = "[\<lparr>item_id = ''c2'', document_id = ''b'', item_text = Some ''other text'', search_score = 1\<rparr>]"
  let ?a = "\<lparr>id_hit = ''a'', bm25 = Some 2, cosine = None, score = 1 / 61, meta = None,
          passages = [\<lparr>chunk_id = ''c1'', text_psg = ''some text'', score_psg = 2,
                       retriever = Bm25\<rparr>]\<rparr>"
  let ?b = "\<lparr>id_hit = ''b'', bm25 = None, cosine = Some 1, score = 1 / 61, meta = None,
          passages = [\<lparr>chunk_id = ''c2'', text_psg = ''other text'', score_psg = 1,
                       retriever = Vector\<rparr>]\<rparr>"
  have k: "search_k 1 1 = 50" by (simp add: search_k_def recall_k_def)
  have lx: "lexical_search svc_offpage_down [] 50 = Inr ?xs"
    and em: "embed svc_offpage_down [] = Inr [1, 0]"
    and vq: "vector_query svc_offpage_down [1, 0] 50 = Inr ?ys"
    and ga: "get_document svc_offpage_down ''a'' = Inr (doc_meta ''a'')"
    and gb: "get_document svc_offpage_down ''b'' = Inl (ServiceError ''metadata'')"
    by (simp_all add: svc_offpage_down_def svc_ok_def)
  have ag: "aggregate_default (map (text_hit_of []) ?xs @ map (vector_hit_of []) ?ys) = Inr [?a, ?b]"
    by (rule aggregate_ok_empty_query)
  have pg: "page_of 1 1 [?a, ?b] = [?a]" by (rule page_of_first_of_two)
  have gd: "\<forall>doc \<in> set (page_of 1 1 [?a, ?b]). \<exists>m. get_document svc_offpage_down (id_hit doc) = Inr m"
    unfolding pg using ga by simp
  from search_does_not_check_the_query [of svc_offpage_down 1 1] lx em vq ag gd
  have "\<exists>r. search svc_offpage_down [] 1 1 =
            ([LexicalSearch [] 50, Embed [], VectorSearch [1, 0] 50] @
             map (\<lambda>doc. GetDocument (id_hit doc)) (page_of 1 1 [?a, ?b]), Inr r) \<and>
           resp_query r = [] \<and>
           map id_hit (results r) = map id_hit (page_of 1 1 [?a, ?b])"
    unfolding k by blast
  then have "\<exists>r. search svc_offpage_down [] 1 1 =
      ([LexicalSearch [] 50, Embed [], VectorSearch [1, 0] 50, GetDocument ''a''], Inr r) \<and>
      resp_query r = [] \<and> map id_hit (results r) = [''a'']"
    unfolding pg by simp
  with lx em vq ga gb show ?thesis unfolding k by (intro conjI)
qed

text \<open>
  The claim itself fails: with working collaborators the empty query is sent to the lexical
  search, to the embedder and on to the vector search, and the request succeeds.
\<close>

theorem search_runs_on_empty_query:
  "search svc_ok [] 1 10 =
     ([LexicalSearch [] 50, Embed [], VectorSearch [1, 0] 50, GetDocument ''a'', GetDocument ''b''],
      Inr \<lparr>resp_query = [], resp_page = 1, resp_page_size = 10, total_results = 2, total_pages = 1,
           results =
             [\<lparr>id_hit = ''a'', bm25 = Some 2, cosine = None, score = 1 / 61,
               meta = Some (doc_meta ''a''),
               passages = [\<lparr>chunk_id = ''c1'', text_psg = ''some text'', score_psg = 2,
                            retriever = Bm25\<rparr>]\<rparr>,
              \<lparr>id_hit = ''b'', bm25 = None, cosine = Some 1, score = 1 / 61,
               meta = Some (doc_meta ''b''),
               passages = [\<lparr>chunk_id = ''c2'', text_psg = ''other text'', score_psg = 1,
                            retriever = Vector\<rparr>]\<rparr>]\<rparr>)"
  by (rule search_empty_query)

section \<open>The claim about mutation\<close>

text \<open>
  Claim C10. Run \<open>aggregate_search_hits\<close> on any heap and any list of hit addresses,
  with any parameters, whether it returns or raises. Every object and every list that
  was in the heap is afterwards at its address, unchanged, so every hit of the heap has
  the same \<open>id\<close>, \<open>bm25\<close>, \<open>cosine\<close>, \<open>score\<close>, \<open>meta\<close> and \<open>passages\<close> as before. Every hit
  of the returned list is an object that was not in the heap before the call, its
  passages list is a list that was not in the heap before the call, and its \<open>meta\<close> is
  absent. When the input addresses point into the heap, the input hits read after the
  call as before it, the hits returned are those that the function computes from the
  values of the input hits, and for \<open>rrf_k\<close> not negative the call returns.
\<close>

theorem aggregate_search_hits_leaves_input_unchanged:
  assumes "aggregate_heap H hits_list w_text w_vector rrf_k max_passages_per_doc = (H', res)"
  shows "prefix (objs H) (objs H') \<and> prefix (lsts H) (lsts H') \<and>
    (\<forall>r. valid_refs H [r] \<longrightarrow> deref H' r = deref H r) \<and>
    (\<forall>out. res = Inr out \<longrightarrow>
       (\<forall>r \<in> set out. length (objs H) \<le> r \<and> r < length (objs H') \<and>
          length (lsts H) \<le> addr H' r \<and> addr H' r < length (lsts H') \<and>
          meta (deref H' r) = None)) \<and>
    (valid_refs H hits_list \<longrightarrow>
       map (deref H') hits_list = map (deref H) hits_list \<and>
       map_sum id (map (deref H')) res =
         aggregate_search_hits (map (deref H) hits_list) w_text w_vector rrf_k max_passages_per_doc) \<and>
    (valid_refs H hits_list \<longrightarrow> 0 \<le> rrf_k \<longrightarrow> (\<exists>out. res = Inr out))"
proof -
  note frame = aggregate_heap_inv [OF assms]
  have p1: "prefix (objs H) (objs H')" and p2: "prefix (lsts H) (lsts H')"
    by (rule frame(1), rule frame(2))
  have old: "\<forall>r. valid_refs H [r] \<longrightarrow> deref H' r = deref H r"
    using valid_refs_single [OF _ p1 p2] by blast
  have new: "\<forall>out. res = Inr out \<longrightarrow>
       (\<forall>r \<in> set out. length (objs H) \<le> r \<and> r < length (objs H') \<and>
          length (lsts H) \<le> addr H' r \<and> addr H' r < length (lsts H') \<and>
          meta (deref H' r) = None)"
  proof (intro allI impI ballI)
    fix out r assume "res = Inr out" "r \<in> set out"
    with frame(3) have "fresh H H' r" by (simp add: list_all_iff)
    then show "length (objs H) \<le> r \<and> r < length (objs H') \<and>
          length (lsts H) \<le> addr H' r \<and> addr H' r < length (lsts H') \<and>
          meta (deref H' r) = None"
      by (simp only: fresh_unfold)
  qed
  have sim: "valid_refs H hits_list \<longrightarrow>
       map (deref H') hits_list = map (deref H) hits_list \<and>
       map_sum id (map (deref H')) res =
         aggregate_search_hits (map (deref H) hits_list) w_text w_vector rrf_k max_passages_per_doc"
  proof
    assume v: "valid_refs H hits_list"
    from valid_refs_deref [OF v p1 p2] aggregate_heap_sim [OF v assms]
    show "map (deref H') hits_list = map (deref H) hits_list \<and>
       map_sum id (map (deref H')) res =
         aggregate_search_hits (map (deref H) hits_list) w_text w_vector rrf_k max_passages_per_doc"
      by simp
  qed
  have ret: "valid_refs H hits_list \<longrightarrow> 0 \<le> rrf_k \<longrightarrow> (\<exists>out. res = Inr out)"
    using aggregate_heap_returns [OF _ _ assms] by blast
  from p1 p2 old new sim ret show ?thesis by (intro conjI)
qed

theorem aggregate_search_hits_leaves_input_unchanged_witness:
  "valid_refs ex_heap [0, 1, 2, 3, 4] \<and> (0::int) \<le> 60 \<and>
   map (deref ex_heap) [0, 1, 2, 3, 4] = ex_hits \<and>
   snd (aggregate_heap ex_heap [0, 1, 2, 3, 4] 1 1 60 3) = Inr [5, 7, 6] \<and>
   map (deref (fst (aggregate_heap ex_heap [0, 1, 2, 3, 4] 1 1 60 3))) [0, 1, 2, 3, 4] = ex_hits \<and>
   Inr (map (deref (fst (aggregate_heap ex_heap [0, 1, 2, 3, 4] 1 1 60 3))) [5, 7, 6]) =
     aggregate_default ex_hits \<and>
   length (objs ex_heap) = 5 \<and>
   meta (deref (fst (aggregate_heap ex_heap [0, 1, 2, 3, 4] 1 1 60 3)) 5) = None \<and>
   meta (deref (fst (aggregate_heap ex_heap [0, 1, 2, 3, 4] 1 1 60 3)) 7) = None \<and>
   meta (deref (fst (aggregate_heap ex_heap [0, 1, 2, 3, 4] 1 1 60 3)) 6) = None \<and>
   valid_refs shared_heap [0, 1, 0] \<and>
   snd (aggregate_heap shared_heap [0, 1, 0] 1 1 60 3) = Inr [2] \<and>
   map (deref (fst (aggregate_heap shared_heap [0, 1, 0] 1 1 60 3))) [0, 1, 0] =
     map (deref shared_heap) [0, 1, 0]"
proof -
  let ?H' = "fst (aggregate_heap ex_heap [0, 1, 2, 3, 4] 1 1 60 3)"
  let ?res = "snd (aggregate_heap ex_heap [0, 1, 2, 3, 4] 1 1 60 3)"
  have run: "aggregate_heap ex_heap [0, 1, 2, 3, 4] 1 1 60 3 = (?H', ?res)" by simp
  note inst = aggregate_search_hits_leaves_input_unchanged [OF run]
  have v: "valid_refs ex_heap [0, 1, 2, 3, 4]" by (rule ex_heap_valid)
  have k: "(0::int) \<le> 60" by simp
  have res: "?res = Inr [5, 7, 6]" by (rule ex_heap_run)
  from inst v have a: "map (deref ?H') [0, 1, 2, 3, 4] = ex_hits"
    and b: "map_sum id (map (deref ?H')) ?res = aggregate_default ex_hits"
    by (simp_all only: ex_heap_deref aggregate_default_def)
  from b have b': "Inr (map (deref ?H') [5, 7, 6]) = aggregate_default ex_hits"
    unfolding res by simp
  from inst res have "\<forall>r \<in> set [5, 7, 6]. length (objs ex_heap) \<le> r \<and> meta (deref ?H' r) = None"
    by blast
  then have c: "meta (deref ?H' 5) = None" "meta (deref ?H' 7) = None" "meta (deref ?H' 6) = None"
    by simp_all
  let ?S' = "fst (aggregate_heap shared_heap [0, 1, 0] 1 1 60 3)"
  let ?sres = "snd (aggregate_heap shared_heap [0, 1, 0] 1 1 60 3)"
  have srun: "aggregate_heap shared_heap [0, 1, 0] 1 1 60 3 = (?S', ?sres)" by simp
  have sv: "valid_refs shared_heap [0, 1, 0]" by (rule shared_heap_valid)
  from aggregate_search_hits_leaves_input_unchanged [OF srun] sv
  have sa: "map (deref ?S') [0, 1, 0] = map (deref shared_heap) [0, 1, 0]" by blast
  from v k ex_heap_deref res a b' ex_heap_lengths(1) c sv shared_heap_run sa show ?thesis
    by (intro conjI)
qed

end
